theory Spec2Isabelle
  imports Complex_Main "HOL-Library.Multiset"
begin

section \<open>Python values: errors and double-precision floats\<close>

text \<open>
  Exceptions of the source are values: every function that can raise returns
  \<open>error + 'a\<close>, with \<open>Inl\<close> for the exception.  \<open>ProviderError\<close> stands for any
  exception of a completion call (network, authentication, quota, a missing
  message content).
\<close>

datatype error =
  ProviderError | ZeroDivisionError | OverflowError | ValueError | KeyError | TypeError

definition bindE :: "error + 'a \<Rightarrow> ('a \<Rightarrow> error + 'b) \<Rightarrow> error + 'b" where
  "bindE m f = (case m of Inl e \<Rightarrow> Inl e | Inr x \<Rightarrow> f x)"

text \<open>
  A finite Python float is an IEEE-754 binary64 number.  \<open>Double m e\<close> denotes the
  number \<open>m * 2 ^ e\<close>; arithmetic computes the exact result and rounds it to the
  nearest number with a 53-bit mantissa, ties to even, with the subnormal range
  (exponents below \<open>-1074\<close> do not exist) and overflow (\<open>2 ^ 1024\<close> and above)
  written out.  Infinities arise in the source only as the argument of \<open>int()\<close>,
  which raises \<open>OverflowError\<close>; they are folded into that error.
\<close>

datatype double = Double (mantissa: int) (exponent: int)

fun bit_length :: "nat \<Rightarrow> nat" where
  "bit_length n = (if n = 0 then 0 else Suc (bit_length (n div 2)))"

declare bit_length.simps [simp del]

definition div_half_even :: "int \<Rightarrow> int \<Rightarrow> int" where
  "div_half_even p q =
     (let m = p div q; r = p mod q
      in if 2 * r < q then m
         else if q < 2 * r then m + 1
         else if even m then m else m + 1)"

definition floor_log2 :: "int \<Rightarrow> int \<Rightarrow> int" where
  "floor_log2 p q =
     (let d = int (bit_length (nat p)) - int (bit_length (nat q))
      in if q * 2 ^ nat d \<le> p * 2 ^ nat (- d) then d else d - 1)"

definition round_pos :: "int \<Rightarrow> int \<Rightarrow> error + double" where
  "round_pos p q =
     (if p = 0 then Inr (Double 0 0)
      else let e = max (floor_log2 p q - 52) (- 1074);
               m = div_half_even (p * 2 ^ nat (- e)) (q * 2 ^ nat e)
           in if 971 \<le> e \<and> 2 ^ 1024 \<le> m * 2 ^ nat e then Inl OverflowError
              else Inr (Double m e))"

definition negate :: "double \<Rightarrow> double" where
  "negate x = Double (- mantissa x) (exponent x)"

definition round_ratio :: "int \<Rightarrow> int \<Rightarrow> error + double" where
  "round_ratio p q =
     (if p < 0 then map_sum id negate (round_pos (- p) q) else round_pos p q)"

definition float_of_int :: "int \<Rightarrow> error + double" where
  "float_of_int n = round_ratio n 1"

definition float_mul :: "double \<Rightarrow> double \<Rightarrow> error + double" where
  "float_mul x y =
     (let e = exponent x + exponent y
      in round_ratio (mantissa x * mantissa y * 2 ^ nat e) (2 ^ nat (- e)))"

definition int_mul_float :: "int \<Rightarrow> double \<Rightarrow> error + double" where
  "int_mul_float n c = bindE (float_of_int n) (\<lambda>x. float_mul x c)"

definition true_divide :: "int \<Rightarrow> int \<Rightarrow> error + double" where
  "true_divide a b =
     (if b = 0 then Inl ZeroDivisionError
      else if b < 0 then round_ratio (- a) (- b) else round_ratio a b)"

definition int_of_float :: "double \<Rightarrow> int" where
  "int_of_float x =
     (let m = mantissa x; e = exponent x
      in if 0 \<le> e then m * 2 ^ nat e
         else sgn m * (\<bar>m\<bar> div 2 ^ nat (- e)))"

definition float_less :: "double \<Rightarrow> double \<Rightarrow> bool" where
  "float_less x y =
     (let e = min (exponent x) (exponent y)
      in mantissa x * 2 ^ nat (exponent x - e) < mantissa y * 2 ^ nat (exponent y - e))"

definition float_literal :: "int \<Rightarrow> int \<Rightarrow> double" where
  "float_literal p q = (case round_ratio p q of Inr x \<Rightarrow> x | Inl _ \<Rightarrow> Double 0 0)"


text \<open>The float literals of the source, each the double nearest to its decimal.\<close>

definition c_0_95 :: double where "c_0_95 = float_literal 95 100"
definition c_1_05 :: double where "c_1_05 = float_literal 105 100"
definition c_0_1 :: double where "c_0_1 = float_literal 1 10"
definition c_0_7 :: double where "c_0_7 = float_literal 7 10"
definition c_0_15 :: double where "c_0_15 = float_literal 15 100"
definition c_0_05 :: double where "c_0_05 = float_literal 5 100"

text \<open>\<open>int(n * c)\<close> for an integer \<open>n\<close> and a float \<open>c\<close>.\<close>

definition int_times :: "int \<Rightarrow> double \<Rightarrow> error + int" where
  "int_times n c = bindE (int_mul_float n c) (\<lambda>x. Inr (int_of_float x))"

text \<open>\<open>a // b\<close> on integers: floor division, which is \<open>div\<close> of HOL.\<close>

definition floor_div :: "int \<Rightarrow> int \<Rightarrow> error + int" where
  "floor_div a b = (if b = 0 then Inl ZeroDivisionError else Inr (a div b))"

section \<open>Python strings\<close>

text \<open>
  Strings are lists of characters, read as ASCII text; \<open>is_space\<close> is
  \<open>str.isspace\<close> and \<open>lower\<close> is \<open>str.lower\<close> on that range.
\<close>

definition is_space :: "char \<Rightarrow> bool" where
  "is_space c = (c \<in> set [CHR 0x09, CHR 0x0A, CHR 0x0B, CHR 0x0C, CHR 0x0D,
                            CHR 0x1C, CHR 0x1D, CHR 0x1E, CHR 0x1F, CHR 0x20])"

definition strip :: "string \<Rightarrow> string" where
  "strip s = rev (dropWhile is_space (rev (dropWhile is_space s)))"

fun split_by :: "(char \<Rightarrow> bool) \<Rightarrow> string \<Rightarrow> string list" where
  "split_by P [] = [[]]"
| "split_by P (c # cs) =
     (if P c then [] # split_by P cs
      else (case split_by P cs of [] \<Rightarrow> [[c]] | f # fs \<Rightarrow> (c # f) # fs))"

definition split_lines :: "string \<Rightarrow> string list" where
  "split_lines s = split_by (\<lambda>c. c = CHR 0x0A) s"

definition split_ws :: "string \<Rightarrow> string list" where
  "split_ws s = filter (\<lambda>w. w \<noteq> []) (split_by is_space s)"

definition lower_char :: "char \<Rightarrow> char" where
  "lower_char c =
     (case map_of (zip ''ABCDEFGHIJKLMNOPQRSTUVWXYZ'' ''abcdefghijklmnopqrstuvwxyz'') c of
        Some d \<Rightarrow> d
      | None \<Rightarrow> c)"

definition lower :: "string \<Rightarrow> string" where
  "lower s = map lower_char s"

fun startswith :: "string \<Rightarrow> string \<Rightarrow> bool" where
  "startswith s [] = True"
| "startswith [] (p # ps) = False"
| "startswith (c # cs) (p # ps) = (c = p \<and> startswith cs ps)"

text \<open>\<open>contains s sub\<close> is \<open>sub in s\<close>.\<close>

fun contains :: "string \<Rightarrow> string \<Rightarrow> bool" where
  "contains [] sub = (sub = [])"
| "contains (c # cs) sub = (startswith (c # cs) sub \<or> contains cs sub)"

text \<open>
  \<open>count_sub s sub\<close> is \<open>s.count(sub)\<close>: the number of non-overlapping
  occurrences, scanning from the left; the empty string occurs \<open>len(s) + 1\<close> times.
\<close>

function count_sub :: "string \<Rightarrow> string \<Rightarrow> nat" where
  "count_sub s sub =
     (if sub = [] then length s + 1
      else if s = [] then 0
      else if startswith s sub then 1 + count_sub (drop (length sub) s) sub
      else count_sub (tl s) sub)"
  by pat_completeness auto
termination
  by (relation "measure (\<lambda>(s, sub). length s)") auto

declare count_sub.simps [simp del]

fun join :: "string \<Rightarrow> string list \<Rightarrow> string" where
  "join sep [] = []"
| "join sep [x] = x"
| "join sep (x # y # ys) = x @ sep @ join sep (y # ys)"

text \<open>\<open>last_chars n s\<close> is the slice \<open>s[-n:]\<close> for positive \<open>n\<close>.\<close>

definition last_chars :: "nat \<Rightarrow> string \<Rightarrow> string" where
  "last_chars n s = drop (length s - n) s"

text \<open>\<open>list.remove(x)\<close>: drops the first occurrence, \<open>ValueError\<close> when there is none.\<close>

definition list_remove :: "'a \<Rightarrow> 'a list \<Rightarrow> error + 'a list" where
  "list_remove x xs = (if x \<in> set xs then Inr (remove1 x xs) else Inl ValueError)"


section \<open>The lecture structure, the narrative context and the collaborators\<close>

text \<open>
  The structure dictionary has the fixed keys that the planner's prompt asks for; it is a
  record, and each of its topics is a record.  The context dictionary of
  \<open>transform_to_lecture\<close> is a record too; \<open>current_topic\<close> is absent until the
  topic loop sets it.
\<close>

record topic =
  title :: string
  key_concepts :: "string list"
  subtopics :: "string list"
  duration_minutes :: int
  objective_links :: "int list"

record structure_data =
  lecture_title :: string
  learning_objectives :: "string list"
  topics :: "topic list"
  practical_applications :: "string list"
  key_terms :: "string list"

record narrative_context =
  current_section :: string
  current_topic :: "string option"
  covered_topics :: "string list"
  pending_topics :: "string list"
  ctx_key_terms :: "string set"
  current_narrative :: string
  ctx_learning_objectives :: "string list"

text \<open>
  The planner returns a Python dictionary: the one its fallback tiers build, or whatever
  \<open>json.loads\<close> made of the provider's text, which need not be a dictionary at all.
  A value with the keys and types of the schema is a \<open>Structure\<close>; every other JSON
  value (\<open>[]\<close>, \<open>42\<close>, \<open>null\<close>, \<open>{}\<close>, an object with a key missing or of
  another type) is \<open>Raw\<close>.
\<close>

datatype json =
    JNull
  | JBool bool
  | JInt int
  | JFloat double
  | JStr string
  | JList "json list"
  | JDict "(string \<times> json) list"

datatype planned = Structure structure_data | Raw json

text \<open>
  A completion call is described by what its prompt is built from.  The provider answers
  the \<open>k\<close>-th call of a run with a text or fails; it may answer the same request
  differently at different calls.
\<close>

datatype request =
    StructureRequest string int
  | FallbackRequest string
  | SectionRequest string structure_data int bool "narrative_context option"

text \<open>
  The collaborators of the transformer: the text processor (\<open>clean_text\<close>,
  \<open>count_words\<close>), \<open>json.loads\<close> (\<open>None\<close> is \<open>JSONDecodeError\<close>), the
  completion provider, and the \<open>words_per_minute\<close> attribute, which the constructor
  sets to 130.  What \<open>transform_to_lecture\<close> does with a planned value that is not of
  the schema, once it has read its \<open>topics\<close> entry, is not modelled: it is the
  parameter \<open>off_schema_run\<close>, of which nothing is assumed.
\<close>

record env =
  clean_text :: "string \<Rightarrow> string"
  count_words :: "string \<Rightarrow> int"
  json_loads :: "string \<Rightarrow> planned option"
  provider :: "nat \<Rightarrow> request \<Rightarrow> error + string"
  words_per_minute :: int
  off_schema_run :: "json \<Rightarrow> string \<Rightarrow> int \<Rightarrow> bool \<Rightarrow> error + string"

text \<open>Records of the logger that the validators write.\<close>

datatype level = Info | Warning | Error

datatype message =
    WordCountSignificantlyOutside int int int
  | WordCountSlightlyOutside int int int
  | ValidatingCoherence
  | ObjectiveNotCovered string
  | KeyTermUnderutilized string
  | TopicNotCovered string
  | CoherenceComplete

type_synonym log_record = "level \<times> message"

section \<open>The word-count validator\<close>

definition LARGE_DEVIATION_THRESHOLD :: double where
  "LARGE_DEVIATION_THRESHOLD = float_literal 20 100"

definition validate_word_count :: "int \<Rightarrow> int \<Rightarrow> int \<Rightarrow> int \<Rightarrow> error + log_record list" where
  "validate_word_count total_words target_words min_words max_words =
     bindE (true_divide \<bar>total_words - target_words\<bar> target_words) (\<lambda>deviation.
       if float_less LARGE_DEVIATION_THRESHOLD deviation
       then Inr [(Error, WordCountSignificantlyOutside total_words min_words max_words)]
       else if total_words < min_words \<or> max_words < total_words
       then Inr [(Warning, WordCountSlightlyOutside total_words min_words max_words)]
       else Inr [])"

section \<open>The structure planner\<close>

text \<open>
  \<open>json_match\<close> is \<open>re.search(r'({[\s\S]*})', content)\<close>: the span from the first
  opening brace to the last closing brace after it.
\<close>

definition json_match :: "string \<Rightarrow> string option" where
  "json_match content =
     (case dropWhile (\<lambda>c. c \<noteq> CHR ''{'') content of
        [] \<Rightarrow> None
      | b # rest \<Rightarrow>
          (case rev (dropWhile (\<lambda>c. c \<noteq> CHR ''}'') (rev rest)) of
             [] \<Rightarrow> None
           | body \<Rightarrow> Some (b # body)))"

definition fallback_topic :: "int \<Rightarrow> string \<Rightarrow> topic" where
  "fallback_topic topic_minutes t =
     \<lparr>title = t, key_concepts = [t], subtopics = [''Overview'', ''Details'', ''Examples''],
      duration_minutes = topic_minutes, objective_links = [1]\<rparr>"

definition minimal_structure :: "int \<Rightarrow> structure_data" where
  "minimal_structure target_duration =
     \<lparr>lecture_title = ''Lecture Overview'',
      learning_objectives = [''Understand key concepts'', ''Apply knowledge'', ''Analyze examples''],
      topics = [\<lparr>title = ''Main Topic'', key_concepts = [''Core concept''],
                 subtopics = [''Overview''], duration_minutes = target_duration div 2,
                 objective_links = [1]\<rparr>],
      practical_applications = [''Practical example''],
      key_terms = [''Key term'']\<rparr>"

text \<open>The non-blank lines of a response, each stripped.\<close>

definition response_lines :: "string \<Rightarrow> string list" where
  "response_lines content =
     map strip (filter (\<lambda>line. strip line \<noteq> []) (split_lines (strip content)))"

text \<open>The body of the \<open>try\<close> of \<open>_generate_fallback_structure\<close>.\<close>

definition fallback_from_lines :: "env \<Rightarrow> string \<Rightarrow> int \<Rightarrow> nat \<Rightarrow> error + structure_data" where
  "fallback_from_lines E text target_duration i =
     bindE (provider E i (FallbackRequest (take 1000 text))) (\<lambda>response.
       let lines = response_lines response;
           the_title = (case lines of [] \<Rightarrow> ''Lecture'' | l # _ \<Rightarrow> l);
           objectives = take 3 (filter (\<lambda>obj. obj \<noteq> []) (take 3 (drop 1 lines)));
           the_topics = take 3 (filter (\<lambda>t. t \<noteq> []) (take 3 (drop 4 lines)));
           terms = take 3 (filter (\<lambda>t. t \<noteq> []) (take 3 (drop 7 lines)))
       in bindE (int_times target_duration c_0_7) (\<lambda>main_time.
          bindE (floor_div main_time (int (length the_topics))) (\<lambda>topic_minutes.
            Inr \<lparr>lecture_title = the_title,
                 learning_objectives = objectives,
                 topics = map (fallback_topic topic_minutes) the_topics,
                 practical_applications =
                   [''Real-world application example'', ''Interactive exercise'', ''Case study''],
                 key_terms = terms\<rparr>)))"

definition generate_fallback_structure :: "env \<Rightarrow> string \<Rightarrow> int \<Rightarrow> nat \<Rightarrow> error + structure_data" where
  "generate_fallback_structure E text target_duration i =
     (case fallback_from_lines E text target_duration i of
        Inr s \<Rightarrow> Inr s
      | Inl e \<Rightarrow> Inr (minimal_structure target_duration))"

text \<open>
  The planner makes its first call as call \<open>i\<close> of the run and returns the planned
  value with the number of the next call.  What \<open>json.loads\<close> returns is returned as
  it is.
\<close>

definition generate_detailed_structure ::
  "env \<Rightarrow> string \<Rightarrow> int \<Rightarrow> nat \<Rightarrow> error + planned \<times> nat" where
  "generate_detailed_structure E text target_duration i =
     (let fallback = bindE (generate_fallback_structure E text target_duration (i + 1))
                           (\<lambda>s. Inr (Structure s, i + 2))
      in case provider E i (StructureRequest (take 2000 text) target_duration) of
           Inl e \<Rightarrow> fallback
         | Inr response \<Rightarrow>
             (let content = strip response
              in case json_loads E content of
                   Some s \<Rightarrow> Inr (s, i + 1)
                 | None \<Rightarrow>
                     (case json_match content of
                        None \<Rightarrow> fallback
                      | Some extracted \<Rightarrow>
                          (case json_loads E extracted of
                             Some s \<Rightarrow> Inr (s, i + 1)
                           | None \<Rightarrow> fallback))))"


section \<open>Section generation and the topic loop\<close>

text \<open>
  \<open>_generate_section\<close> builds its prompt from its arguments and makes one completion
  call, call \<open>i\<close> of the run; it returns the text as it comes and lets a failure of the
  call propagate.
\<close>

definition generate_section ::
  "env \<Rightarrow> string \<Rightarrow> structure_data \<Rightarrow> string \<Rightarrow> int \<Rightarrow> bool \<Rightarrow> narrative_context option \<Rightarrow>
   bool \<Rightarrow> bool \<Rightarrow> nat \<Rightarrow> error + string" where
  "generate_section E section_type sd original_text target_words include_examples ctx
     is_first is_last i =
     provider E i (SectionRequest section_type sd target_words include_examples ctx)"

text \<open>The first loop of \<open>_generate_main_content\<close>: the dictionary \<open>topic_words\<close>.\<close>

fun topic_words_loop ::
  "int \<Rightarrow> int \<Rightarrow> topic list \<Rightarrow> (string \<rightharpoonup> int) \<Rightarrow> error + (string \<rightharpoonup> int)" where
  "topic_words_loop target_words total_duration [] topic_words = Inr topic_words"
| "topic_words_loop target_words total_duration (t # ts) topic_words =
     bindE (true_divide (duration_minutes t) total_duration) (\<lambda>ratio.
     bindE (int_times target_words ratio) (\<lambda>quota.
       topic_words_loop target_words total_duration ts (topic_words(title t \<mapsto> quota))))"

text \<open>
  The second loop, one iteration per topic.  Its state is the context, the list
  \<open>topic_contents\<close> and the number of the next completion call.
\<close>

definition enter_topic :: "topic \<Rightarrow> narrative_context \<Rightarrow> error + narrative_context" where
  "enter_topic t ctx =
     bindE (list_remove (title t) (pending_topics ctx)) (\<lambda>pending.
       Inr (ctx\<lparr>current_topic := Some (title t),
                covered_topics := covered_topics ctx @ [title t],
                pending_topics := pending,
                ctx_key_terms := ctx_key_terms ctx \<union> set (key_concepts t)\<rparr>))"

fun topic_loop ::
  "env \<Rightarrow> structure_data \<Rightarrow> string \<Rightarrow> bool \<Rightarrow> (string \<rightharpoonup> int) \<Rightarrow> topic list \<Rightarrow>
   narrative_context \<times> string list \<times> nat \<Rightarrow> error + narrative_context \<times> string list \<times> nat" where
  "topic_loop E sd original_text include_examples topic_words [] st = Inr st"
| "topic_loop E sd original_text include_examples topic_words (t # ts) (ctx, topic_contents, i) =
     (case topic_words (title t) of
        None \<Rightarrow> Inl KeyError
      | Some topic_target \<Rightarrow>
          bindE (enter_topic t ctx) (\<lambda>ctx1.
          bindE (generate_section E (''main_topic_'' @ title t) sd original_text topic_target
                   include_examples (Some ctx1) False False i) (\<lambda>topic_content.
            topic_loop E sd original_text include_examples topic_words ts
              (ctx1\<lparr>current_narrative := last_chars 1000 topic_content\<rparr>,
               topic_contents @ [topic_content], i + 1))))"

definition generate_main_content ::
  "env \<Rightarrow> structure_data \<Rightarrow> string \<Rightarrow> int \<Rightarrow> bool \<Rightarrow> narrative_context \<Rightarrow> nat \<Rightarrow>
   error + string \<times> narrative_context \<times> nat" where
  "generate_main_content E sd original_text target_words include_examples ctx i =
     (let total_duration = sum_list (map duration_minutes (topics sd))
      in bindE (topic_words_loop target_words total_duration (topics sd) Map.empty) (\<lambda>topic_words.
         bindE (topic_loop E sd original_text include_examples topic_words (topics sd) (ctx, [], i))
           (\<lambda>(ctx1, topic_contents, j).
              Inr (join [CHR 0x0A, CHR 0x0A] topic_contents, ctx1, j))))"

section \<open>The coherence validator\<close>

fun check_objectives :: "string \<Rightarrow> string list \<Rightarrow> log_record list \<Rightarrow> log_record list" where
  "check_objectives content [] logged = logged"
| "check_objectives content (objective # rest) logged =
     check_objectives content rest
       (if \<not> list_ex (\<lambda>trm. contains (lower content) (lower trm)) (split_ws objective)
        then logged @ [(Warning, ObjectiveNotCovered objective)] else logged)"

fun check_key_terms :: "string \<Rightarrow> string list \<Rightarrow> log_record list \<Rightarrow> log_record list" where
  "check_key_terms content [] logged = logged"
| "check_key_terms content (trm # rest) logged =
     check_key_terms content rest
       (if count_sub (lower content) (lower trm) < 2
        then logged @ [(Warning, KeyTermUnderutilized trm)] else logged)"

fun check_topics :: "string \<Rightarrow> topic list \<Rightarrow> log_record list \<Rightarrow> log_record list" where
  "check_topics content [] logged = logged"
| "check_topics content (t # rest) logged =
     check_topics content rest
       (if \<not> list_ex (\<lambda>concept. contains (lower content) (lower concept)) (key_concepts t)
        then logged @ [(Warning, TopicNotCovered (title t))] else logged)"

definition validate_coherence :: "string \<Rightarrow> structure_data \<Rightarrow> log_record list" where
  "validate_coherence content sd =
     (let logged1 = check_objectives content (learning_objectives sd) [(Info, ValidatingCoherence)];
          logged2 = check_key_terms content (key_terms sd) logged1;
          logged3 = check_topics content (topics sd) logged2
      in logged3 @ [(Info, CoherenceComplete)])"

section \<open>The orchestrator\<close>

record section_words =
  intro_words :: int
  main_words :: int
  practical_words :: int
  summary_words :: int

definition calc_section_words :: "int \<Rightarrow> error + section_words" where
  "calc_section_words target_words =
     bindE (int_times target_words c_0_1) (\<lambda>a.
     bindE (int_times target_words c_0_7) (\<lambda>b.
     bindE (int_times target_words c_0_15) (\<lambda>c.
     bindE (int_times target_words c_0_05) (\<lambda>d.
       Inr \<lparr>intro_words = a, main_words = b, practical_words = c, summary_words = d\<rparr>))))"

text \<open>
  The statements of the \<open>try\<close> block up to the assignment of \<open>full_content\<close>: the four
  sections, generated in order from call \<open>i\<close> on.
\<close>

definition generate_sections ::
  "env \<Rightarrow> structure_data \<Rightarrow> string \<Rightarrow> section_words \<Rightarrow> bool \<Rightarrow> nat \<Rightarrow> error + string" where
  "generate_sections E sd cleaned_text sw include_examples i =
     bindE (generate_section E ''introduction'' sd cleaned_text (intro_words sw)
              include_examples None True False i) (\<lambda>intro.
       let ctx = \<lparr>current_section = ''introduction'', current_topic = None,
                  covered_topics = [], pending_topics = map title (topics sd),
                  ctx_key_terms = {}, current_narrative = last_chars 1000 intro,
                  ctx_learning_objectives = learning_objectives sd\<rparr>
       in bindE (generate_main_content E sd cleaned_text (main_words sw) include_examples ctx (i + 1))
            (\<lambda>(main_content, ctx1, j).
          let ctx2 = ctx1\<lparr>current_section := ''main'',
                          current_narrative := last_chars 1000 main_content\<rparr>
          in bindE (generate_section E ''practical'' sd cleaned_text (practical_words sw)
                      include_examples (Some ctx2) False False j) (\<lambda>practical.
             let ctx3 = ctx2\<lparr>current_section := ''practical'',
                             current_narrative := last_chars 500 practical\<rparr>
             in bindE (generate_section E ''summary'' sd cleaned_text (summary_words sw)
                         include_examples (Some ctx3) False True (j + 1)) (\<lambda>summary.
                Inr (intro @ [CHR 0x0A, CHR 0x0A] @ main_content @ [CHR 0x0A, CHR 0x0A]
                     @ practical @ [CHR 0x0A, CHR 0x0A] @ summary)))))"

text \<open>The statements of the \<open>try\<close> block after the assignment of \<open>full_content\<close>.\<close>

definition validate_content ::
  "env \<Rightarrow> string \<Rightarrow> structure_data \<Rightarrow> int \<Rightarrow> int \<Rightarrow> int \<Rightarrow> error + log_record list" where
  "validate_content E full_content sd target_words min_words max_words =
     bindE (validate_word_count (count_words E full_content) target_words min_words max_words)
       (\<lambda>logged. Inr (logged @ validate_coherence full_content sd))"

text \<open>The target word count and its bounds, as \<open>transform_to_lecture\<close> computes them.\<close>

definition word_bounds :: "int \<Rightarrow> int \<Rightarrow> error + int \<times> int \<times> int" where
  "word_bounds wpm target_duration =
     (let target_words = wpm * target_duration
      in bindE (int_times target_words c_0_95) (\<lambda>min_words.
         bindE (int_times target_words c_1_05) (\<lambda>max_words.
           Inr (target_words, min_words, max_words))))"

text \<open>
  \<open>structure_data['topics']\<close> on a value that is not of the schema: only a dictionary
  can be subscripted by a key, and the key must be there.
\<close>

definition topics_entry :: "json \<Rightarrow> error + json" where
  "topics_entry j =
     (case j of
        JDict entries \<Rightarrow>
          (case map_of entries ''topics'' of None \<Rightarrow> Inl KeyError | Some v \<Rightarrow> Inr v)
      | _ \<Rightarrow> Inl TypeError)"

text \<open>
  \<open>transform_to_lecture\<close>.  The handler of the \<open>try\<close> block returns \<open>full_content\<close>
  when that variable is bound, which is so once all four sections exist, and re-raises
  otherwise.  What precedes the \<open>try\<close> block, the first reading of the topics among
  it, raises to the caller.
\<close>

definition transform_to_lecture :: "env \<Rightarrow> string \<Rightarrow> int \<Rightarrow> bool \<Rightarrow> error + string" where
  "transform_to_lecture E text target_duration include_examples =
     (let cleaned_text = clean_text E text
      in bindE (word_bounds (words_per_minute E) target_duration)
           (\<lambda>(target_words, min_words, max_words).
         bindE (generate_detailed_structure E cleaned_text target_duration 0) (\<lambda>(planned, i).
           case planned of
             Raw j \<Rightarrow>
               bindE (topics_entry j) (\<lambda>ts.
                 off_schema_run E j cleaned_text target_duration include_examples)
           | Structure sd \<Rightarrow>
               bindE (calc_section_words target_words) (\<lambda>sw.
                 case generate_sections E sd cleaned_text sw include_examples i of
                   Inl e \<Rightarrow> Inl e
                 | Inr full_content \<Rightarrow>
                     (case validate_content E full_content sd target_words min_words max_words of
                        Inl e \<Rightarrow> Inr full_content
                      | Inr logged \<Rightarrow> Inr full_content)))))"


section \<open>What the claims speak of\<close>

text \<open>
  A string occurs in a text, case-insensitively, when the lowered text splits around the
  lowered string; it occurs twice when two occurrences do not overlap, which is how
  \<open>str.count\<close> counts.  The empty string occurs \<open>len + 1\<close> times.
\<close>

definition occurs_in :: "string \<Rightarrow> string \<Rightarrow> bool" where
  "occurs_in sub s \<longleftrightarrow> (\<exists>a b. lower s = a @ lower sub @ b)"

definition occurs_twice_in :: "string \<Rightarrow> string \<Rightarrow> bool" where
  "occurs_twice_in sub s \<longleftrightarrow> (\<exists>a b c. lower s = a @ lower sub @ b @ lower sub @ c)"

definition objective_uncovered :: "string \<Rightarrow> string \<Rightarrow> bool" where
  "objective_uncovered content objective \<longleftrightarrow>
     \<not> (\<exists>w \<in> set (split_ws objective). occurs_in w content)"

definition term_underused :: "string \<Rightarrow> string \<Rightarrow> bool" where
  "term_underused content trm \<longleftrightarrow>
     (if trm = [] then content = [] else \<not> occurs_twice_in trm content)"

definition topic_uncovered :: "string \<Rightarrow> topic \<Rightarrow> bool" where
  "topic_uncovered content t \<longleftrightarrow> \<not> (\<exists>c \<in> set (key_concepts t). occurs_in c content)"

section \<open>Example inputs\<close>

definition topic_of :: "string \<Rightarrow> string \<Rightarrow> int \<Rightarrow> topic" where
  "topic_of t concept minutes =
     \<lparr>title = t, key_concepts = [concept], subtopics = [], duration_minutes = minutes,
      objective_links = [1]\<rparr>"

definition three_topics :: structure_data where
  "three_topics =
     \<lparr>lecture_title = ''L'',
      learning_objectives = [''Ab x'', ''cd''],
      topics = [topic_of ''T1'' ''ab'' 10, topic_of ''T2'' ''zz'' 10, topic_of ''T3'' ''b'' 10],
      practical_applications = [],
      key_terms = [''AB'', ''b a'']\<rparr>"

definition seeded_context :: "structure_data \<Rightarrow> string \<Rightarrow> narrative_context" where
  "seeded_context sd intro =
     \<lparr>current_section = ''introduction'', current_topic = None,
      covered_topics = [], pending_topics = map title (topics sd),
      ctx_key_terms = {}, current_narrative = last_chars 1000 intro,
      ctx_learning_objectives = learning_objectives sd\<rparr>"

definition echo_env :: env where
  "echo_env =
     \<lparr>clean_text = (\<lambda>s. s), count_words = (\<lambda>s. int (length (split_ws s))),
      json_loads = (\<lambda>s. None), provider = (\<lambda>k r. Inr ''Ab ab''),
      words_per_minute = 130, off_schema_run = (\<lambda>j t d b. Inl TypeError)\<rparr>"

definition no_topics :: structure_data where
  "no_topics =
     \<lparr>lecture_title = ''T'', learning_objectives = [], topics = [],
      practical_applications = [], key_terms = []\<rparr>"

text \<open>
  A provider that answers the planner with a JSON object whose topic list is empty, and
  \<open>json.loads\<close> at that text.
\<close>

definition no_topics_json :: string where
  \<open>no_topics_json =
     ''{"title":"T","learning_objectives":[],"topics":[],"practical_applications":[],"key_terms":[]}''\<close>

definition no_topics_env :: env where
  "no_topics_env =
     echo_env\<lparr>json_loads := (\<lambda>s. if s = no_topics_json then Some (Structure no_topics) else None),
              provider := (\<lambda>k r. Inr no_topics_json)\<rparr>"

text \<open>A provider that answers the planner with the empty JSON list.\<close>

definition list_reply_env :: env where
  "list_reply_env =
     echo_env\<lparr>json_loads := (\<lambda>s. if s = ''[]'' then Some (Raw (JList [])) else None),
              provider := (\<lambda>k r. Inr ''[]'')\<rparr>"

text \<open>A provider that fails on the call for the practical section and answers all others.\<close>

definition practical_fails :: "nat \<Rightarrow> request \<Rightarrow> error + string" where
  "practical_fails k r =
     (case r of
        SectionRequest section_type sd target_words include_examples ctx \<Rightarrow>
          if section_type = ''practical'' then Inl ProviderError else Inr ''Ab ab''
      | _ \<Rightarrow> Inr ''Ab ab'')"

definition practical_fails_env :: env where
  "practical_fails_env = echo_env\<lparr>provider := practical_fails\<rparr>"

text \<open>A provider that answers every call with four lines: a title and three objectives.\<close>

definition four_lines :: string where
  "four_lines = ''T'' @ [CHR 0x0A] @ ''A'' @ [CHR 0x0A] @ ''B'' @ [CHR 0x0A] @ ''C''"

definition four_lines_env :: env where
  "four_lines_env = echo_env\<lparr>provider := (\<lambda>k r. Inr four_lines)\<rparr>"

text \<open>
  The structure that the line-oriented tier reads off a list of lines: line 0 as title,
  lines 1 to 3 as objectives, lines 4 to 6 as topics, lines 7 to 9 as terms.
\<close>

definition structure_from_lines :: "int \<Rightarrow> string list \<Rightarrow> structure_data" where
  "structure_from_lines main_time lines =
     \<lparr>lecture_title = lines ! 0,
      learning_objectives = take 3 (drop 1 lines),
      topics = map (fallback_topic (main_time div int (length (take 3 (drop 4 lines)))))
                 (take 3 (drop 4 lines)),
      practical_applications =
        [''Real-world application example'', ''Interactive exercise'', ''Case study''],
      key_terms = take 3 (drop 7 lines)\<rparr>"

section \<open>Basic facts\<close>

lemma bindE_Inr [simp]: "bindE (Inr x) f = f x"
  by (simp add: bindE_def)

lemma bindE_Inl [simp]: "bindE (Inl e) f = Inl e"
  by (simp add: bindE_def)

lemma bindE_eq_Inr: "bindE m f = Inr y \<longleftrightarrow> (\<exists>x. m = Inr x \<and> f x = Inr y)"
  by (cases m) simp_all

subsection \<open>Evaluating float arithmetic\<close>

lemma bit_length_numeral [simp]:
  "bit_length (numeral k) = Suc (bit_length (numeral k div 2))"
  by (subst bit_length.simps) simp

lemma bit_length_0 [simp]: "bit_length 0 = 0"
  by (subst bit_length.simps) simp

lemma bit_length_1 [simp]: "bit_length (Suc 0) = 1"
  by (subst bit_length.simps) simp

lemmas float_eval = float_literal_def round_ratio_def round_pos_def floor_log2_def
  div_half_even_def Let_def float_of_int_def float_mul_def int_mul_float_def
  true_divide_def int_of_float_def float_less_def negate_def int_times_def

lemma c_0_7_eq: "c_0_7 = Double 6305039478318694 (- 53)"
  by (simp add: c_0_7_def float_eval)

lemma c_0_95_eq: "c_0_95 = Double 8556839292003942 (- 53)"
  by (simp add: c_0_95_def float_eval)

lemma c_1_05_eq: "c_1_05 = Double 4728779608739021 (- 52)"
  by (simp add: c_1_05_def float_eval)

lemma c_0_1_eq: "c_0_1 = Double 7205759403792794 (- 56)"
  by (simp add: c_0_1_def float_eval)

lemma c_0_15_eq: "c_0_15 = Double 5404319552844595 (- 55)"
  by (simp add: c_0_15_def float_eval)

lemma c_0_05_eq: "c_0_05 = Double 7205759403792794 (- 57)"
  by (simp add: c_0_05_def float_eval)

lemma threshold_eq: "LARGE_DEVIATION_THRESHOLD = Double 7205759403792794 (- 55)"
  by (simp add: LARGE_DEVIATION_THRESHOLD_def float_eval)

lemma true_divide_zero [simp]: "true_divide a 0 = Inl ZeroDivisionError"
  by (simp add: true_divide_def)

lemma sum_list_all_zero:
  "\<forall>t \<in> set ts. duration_minutes t = (0::int) \<Longrightarrow> sum_list (map duration_minutes ts) = 0"
  by (induction ts) simp_all

subsection \<open>Rounding to the nearest double\<close>

lemma bit_length_pos: "0 < n \<Longrightarrow> 0 < bit_length n"
  by (subst bit_length.simps) simp

lemma bit_length_bounds:
  "0 < n \<Longrightarrow> 2 ^ (bit_length n - 1) \<le> n \<and> n < 2 ^ bit_length n"
proof (induction n rule: bit_length.induct)
  case (1 n)
  have step: "bit_length n = Suc (bit_length (n div 2))"
    using "1.prems" by (subst bit_length.simps) simp
  show ?case
  proof (cases "n div 2 = 0")
    case True
    then have "bit_length (n div 2) = 0"
      by (subst bit_length.simps) simp
    moreover have "n = 1"
      using True "1.prems" by (simp add: div_eq_0_iff) 
    ultimately show ?thesis
      using step by simp
  next
    case False
    then have pos: "0 < n div 2"
      by simp
    from "1.IH" [OF _ pos] "1.prems"
    have ih: "2 ^ (bit_length (n div 2) - 1) \<le> n div 2" "n div 2 < 2 ^ bit_length (n div 2)"
      by simp_all
    obtain b where b: "bit_length (n div 2) = Suc b"
      using bit_length_pos [OF pos] by (cases "bit_length (n div 2)") auto
    have "2 ^ Suc b \<le> 2 * (n div 2)"
      using ih(1) b by simp
    also have "\<dots> \<le> n"
      by simp
    finally have lo: "2 ^ (bit_length n - 1) \<le> n"
      using step b by simp
    have "n < 2 * (n div 2 + 1)"
      by simp
    also have "\<dots> \<le> 2 * 2 ^ bit_length (n div 2)"
      using ih(2) by simp
    finally have "n < 2 ^ bit_length n"
      using step by simp
    with lo show ?thesis ..
  qed
qed

lemma bit_length_real:
  assumes "0 < p"
  shows "2 powi (int (bit_length (nat p)) - 1) \<le> real_of_int p"
    and "real_of_int p < 2 powi int (bit_length (nat p))"
proof -
  define b where "b = bit_length (nat p)"
  have n: "0 < nat p"
    using assms by simp
  from bit_length_bounds [OF n] have lo: "2 ^ (b - 1) \<le> nat p" and hi: "nat p < 2 ^ b"
    by (simp_all add: b_def)
  have bpos: "0 < b"
    unfolding b_def using bit_length_pos [OF n] .
  have "int (2 ^ (b - 1)) \<le> int (nat p)"
    using lo by (simp only: of_nat_le_iff)
  then have "2 ^ (b - 1) \<le> p"
    using assms by simp
  then have "real_of_int (2 ^ (b - 1)) \<le> real_of_int p"
    by (simp only: of_int_le_iff)
  then have lo': "(2::real) ^ (b - 1) \<le> real_of_int p"
    by simp
  have "int (nat p) < int (2 ^ b)"
    using hi by (simp only: of_nat_less_iff)
  then have "p < 2 ^ b"
    using assms by simp
  then have "real_of_int p < real_of_int (2 ^ b)"
    by (simp only: of_int_less_iff)
  then have hi': "real_of_int p < 2 ^ b"
    by simp
  have "int b - 1 = int (b - 1)"
    using bpos by simp
  then have "(2::real) powi (int b - 1) = 2 ^ (b - 1)"
    by (simp only: power_int_of_nat)
  with lo' show "2 powi (int (bit_length (nat p)) - 1) \<le> real_of_int p"
    by (simp add: b_def)
  from hi' show "real_of_int p < 2 powi int (bit_length (nat p))"
    by (simp add: b_def)
qed

lemma scale_ratio: "(2::real) ^ nat d / 2 ^ nat (- d) = 2 powi d"
proof (cases "0 \<le> d")
  case True
  then have "nat (- d) = 0"
    by simp
  moreover have "(2::real) powi d = 2 ^ nat d"
    using True unfolding power_int_def by (simp only: if_True)
  ultimately show ?thesis
    by simp
next
  case False
  then have d: "d = - int (nat (- d))"
    by simp
  have "(2::real) powi d = 2 powi (- int (nat (- d)))"
    using d by simp
  also have "\<dots> = 1 / 2 powi int (nat (- d))"
    by (rule power_int_minus_divide)
  also have "\<dots> = 1 / 2 ^ nat (- d)"
    by (simp only: power_int_of_nat)
  finally have "(2::real) powi d = 1 / 2 ^ nat (- d)" .
  moreover have "nat d = 0"
    using False by simp
  ultimately show ?thesis
    by simp
qed

lemma floor_log2_test:
  assumes "0 < q"
  shows "q * 2 ^ nat d \<le> p * 2 ^ nat (- d) \<longleftrightarrow> 2 powi d \<le> real_of_int p / real_of_int q"
proof -
  define A :: real where "A = 2 ^ nat d"
  define B :: real where "B = 2 ^ nat (- d)"
  have pos: "0 < A" "0 < B" "0 < real_of_int q"
    using assms by (simp_all add: A_def B_def)
  have "q * 2 ^ nat d \<le> p * 2 ^ nat (- d) \<longleftrightarrow>
        real_of_int (q * 2 ^ nat d) \<le> real_of_int (p * 2 ^ nat (- d))"
    by (simp only: of_int_le_iff)
  also have "\<dots> \<longleftrightarrow> real_of_int q * A \<le> real_of_int p * B"
    by (simp add: A_def B_def)
  also have "\<dots> \<longleftrightarrow> A / B \<le> real_of_int p / real_of_int q"
    using pos by (simp add: field_simps)
  also have "A / B = 2 powi d"
    unfolding A_def B_def by (rule scale_ratio)
  finally show ?thesis .
qed

lemma pow2_add: "(2::real) powi (a + b) = 2 powi a * 2 powi b"
  by (rule power_int_add) simp

lemma floor_log2_bounds:
  assumes "0 < p" "0 < q"
  shows "2 powi floor_log2 p q \<le> real_of_int p / real_of_int q"
    and "real_of_int p / real_of_int q < 2 powi (floor_log2 p q + 1)"
proof -
  define bp where "bp = int (bit_length (nat p))"
  define bq where "bq = int (bit_length (nat q))"
  define d where "d = bp - bq"
  define x where "x = real_of_int p / real_of_int q"
  have p: "2 powi (bp - 1) \<le> real_of_int p" "real_of_int p < 2 powi bp"
    unfolding bp_def using bit_length_real [OF assms(1)] by blast+
  have q: "2 powi (bq - 1) \<le> real_of_int q" "real_of_int q < 2 powi bq"
    unfolding bq_def using bit_length_real [OF assms(2)] by blast+
  have qpos: "0 < real_of_int q"
    using assms by simp
  have px: "real_of_int p = x * real_of_int q"
    using qpos by (simp add: x_def)
  have "floor_log2 p q = (if q * 2 ^ nat d \<le> p * 2 ^ nat (- d) then d else d - 1)"
    unfolding floor_log2_def Let_def bp_def bq_def d_def ..
  then have k: "floor_log2 p q = (if 2 powi d \<le> x then d else d - 1)"
    unfolding x_def by (simp only: floor_log2_test [OF assms(2)])
  have up: "x < 2 powi (d + 1)"
  proof -
    have eq: "d + 1 + (bq - 1) = bp"
      by (simp add: d_def)
    have "2 powi (d + 1) * 2 powi (bq - 1) = (2::real) powi (d + 1 + (bq - 1))"
      by (rule pow2_add [symmetric])
    then have e: "2 powi (d + 1) * 2 powi (bq - 1) = (2::real) powi bp"
      by (simp only: eq)
    have "x * real_of_int q < 2 powi (d + 1) * 2 powi (bq - 1)"
      using p(2) px e by simp
    also have "\<dots> \<le> 2 powi (d + 1) * real_of_int q"
      using q(1) by (intro mult_left_mono) simp_all
    finally show ?thesis
      using qpos by (simp only: mult_less_cancel_right_pos)
  qed
  have low: "2 powi (d - 1) < x"
  proof -
    have eq: "d - 1 + bq = bp - 1"
      by (simp add: d_def)
    have "2 powi (d - 1) * 2 powi bq = (2::real) powi (d - 1 + bq)"
      by (rule pow2_add [symmetric])
    then have e: "2 powi (d - 1) * 2 powi bq = (2::real) powi (bp - 1)"
      by (simp only: eq)
    have "2 powi (d - 1) * real_of_int q < 2 powi (d - 1) * 2 powi bq"
      using q(2) by (intro mult_strict_left_mono) simp_all
    also have "\<dots> \<le> x * real_of_int q"
      using p(1) px e by simp
    finally show ?thesis
      using qpos by (simp only: mult_less_cancel_right_pos)
  qed
  show "2 powi floor_log2 p q \<le> real_of_int p / real_of_int q"
  proof (cases "2 powi d \<le> x")
    case True
    with k show ?thesis by (simp add: x_def)
  next
    case False
    with k have "floor_log2 p q = d - 1" by simp
    with low show ?thesis by (simp add: x_def)
  qed
  show "real_of_int p / real_of_int q < 2 powi (floor_log2 p q + 1)"
  proof (cases "2 powi d \<le> x")
    case True
    with k have "floor_log2 p q = d" by simp
    with up show ?thesis by (simp add: x_def)
  next
    case False
    with k have "floor_log2 p q = d - 1" by simp
    with False show ?thesis by (simp add: x_def)
  qed
qed

lemma div_half_even_error:
  assumes "0 \<le> P" "0 < Q"
  shows "\<bar>real_of_int (div_half_even P Q) - real_of_int P / real_of_int Q\<bar> \<le> 1 / 2"
    and "0 \<le> div_half_even P Q"
proof -
  define m where "m = P div Q"
  define r where "r = P mod Q"
  define f where "f = real_of_int r / real_of_int Q"
  have P: "P = m * Q + r"
    by (simp add: m_def r_def)
  have r: "0 \<le> r" "r < Q"
    using assms by (simp_all add: r_def)
  have m: "0 \<le> m"
    using assms by (simp add: m_def pos_imp_zdiv_nonneg_iff)
  have Qpos: "0 < real_of_int Q"
    using assms by simp
  have "real_of_int P = real_of_int m * real_of_int Q + real_of_int r"
    by (simp add: P)
  then have q: "real_of_int P / real_of_int Q = real_of_int m + f"
    using Qpos by (simp add: f_def field_simps)
  have fr: "f * real_of_int Q = real_of_int r"
    using Qpos by (simp add: f_def)
  have half: "(f < 1 / 2) = (2 * r < Q)" "(1 / 2 < f) = (Q < 2 * r)"
  proof -
    have "(f < 1 / 2) = (f * real_of_int Q < 1 / 2 * real_of_int Q)"
      using Qpos by (simp only: mult_less_cancel_right_pos)
    also have "\<dots> = (real_of_int (2 * r) < real_of_int Q)"
      by (simp add: fr mult.commute)
    also have "\<dots> = (2 * r < Q)"
      by (simp only: of_int_less_iff)
    finally show "(f < 1 / 2) = (2 * r < Q)" .
    have "(1 / 2 < f) = (1 / 2 * real_of_int Q < f * real_of_int Q)"
      using Qpos by (simp only: mult_less_cancel_right_pos)
    also have "\<dots> = (real_of_int Q < real_of_int (2 * r))"
      by (simp add: fr mult.commute)
    also have "\<dots> = (Q < 2 * r)"
      by (simp only: of_int_less_iff)
    finally show "(1 / 2 < f) = (Q < 2 * r)" .
  qed
  have f01: "0 \<le> f" "f < 1"
    using r Qpos by (simp_all add: f_def)
  have val: "div_half_even P Q =
      (if 2 * r < Q then m else if Q < 2 * r then m + 1 else if even m then m else m + 1)"
    by (simp add: div_half_even_def m_def r_def Let_def)
  consider "2 * r < Q" | "Q < 2 * r" | "\<not> 2 * r < Q" "\<not> Q < 2 * r"
    by blast
  then show "\<bar>real_of_int (div_half_even P Q) - real_of_int P / real_of_int Q\<bar> \<le> 1 / 2"
  proof cases
    case 1
    then have "f < 1 / 2" "div_half_even P Q = m"
      using half val by simp_all
    then show ?thesis
      using q f01 by simp
  next
    case 2
    then have "1 / 2 < f" "div_half_even P Q = m + 1"
      using half val by simp_all
    then show ?thesis
      using q f01 by simp
  next
    case 3
    then have "f = 1 / 2"
      using half by linarith
    moreover have "div_half_even P Q = m \<or> div_half_even P Q = m + 1"
      using 3 val by simp
    ultimately show ?thesis
      using q by auto
  qed
  show "0 \<le> div_half_even P Q"
    using m val by simp
qed

lemma round_pos_spec:
  assumes "0 < p" "0 < q" and "real_of_int p / real_of_int q < 2 powi 1023"
  defines "e \<equiv> max (floor_log2 p q - 52) (- 1074)"
  shows "\<exists>m. round_pos p q = Inr (Double m e) \<and> 0 \<le> m \<and>
           \<bar>real_of_int m - real_of_int p / real_of_int q * 2 powi (- e)\<bar> \<le> 1 / 2"
proof -
  define x where "x = real_of_int p / real_of_int q"
  define P where "P = p * 2 ^ nat (- e)"
  define Q where "Q = q * 2 ^ nat e"
  define m where "m = div_half_even P Q"
  have "2 powi floor_log2 p q \<le> x"
    unfolding x_def using floor_log2_bounds(1) [OF assms(1,2)] .
  then have "(2::real) powi floor_log2 p q < 2 powi 1023"
    using assms(3) by (simp add: x_def)
  then have "floor_log2 p q < 1023"
    by (rule power_int_le_imp_less_exp [rotated]) simp_all
  then have e970: "e \<le> 970"
    by (simp add: e_def)
  have PQ: "0 \<le> P" "0 < Q"
    using assms(1,2) by (simp_all add: P_def Q_def)
  have round: "round_pos p q = Inr (Double m e)"
    using assms(1) e970
    by (simp add: round_pos_def Let_def e_def [symmetric] m_def P_def Q_def)
  have "(2::real) ^ nat (- e) / 2 ^ nat (- (- e)) = 2 powi (- e)"
    by (rule scale_ratio)
  then have sc: "(2::real) ^ nat (- e) / 2 ^ nat e = 2 powi (- e)"
    by simp
  have "real_of_int P / real_of_int Q =
        (real_of_int p / real_of_int q) * ((2::real) ^ nat (- e) / 2 ^ nat e)"
    by (simp add: P_def Q_def)
  then have ratio: "real_of_int P / real_of_int Q = x * 2 powi (- e)"
    by (simp only: sc x_def)
  from div_half_even_error [OF PQ]
  have "\<bar>real_of_int m - x * 2 powi (- e)\<bar> \<le> 1 / 2" "0 \<le> m"
    by (simp_all only: m_def ratio)
  with round show ?thesis
    unfolding x_def by blast
qed

lemma pow2_less_iff: "(2::real) powi a < 2 powi b \<longleftrightarrow> a < b"
proof
  assume lt: "(2::real) powi a < 2 powi b"
  show "a < b"
  proof (rule ccontr)
    assume "\<not> a < b"
    then have "b \<le> a" by simp
    then have "(2::real) powi b \<le> 2 powi a"
      by (rule power_int_increasing) simp
    with lt show False by simp
  qed
next
  assume "a < b"
  then show "(2::real) powi a < 2 powi b"
    by (rule power_int_strict_increasing) simp
qed

lemma pow2_le_iff: "(2::real) powi a \<le> 2 powi b \<longleftrightarrow> a \<le> b"
  using pow2_less_iff [of b a] by (simp add: not_less [symmetric])

lemma round_pos_normal:
  assumes "0 < p" "0 < q"
    and "x = real_of_int p / real_of_int q"
    and "2 powi (- 1022) \<le> x" "x < 2 powi 1023"
  shows "\<exists>m e. round_pos p q = Inr (Double m e) \<and> 0 \<le> m \<and>
           2 powi (e + 52) \<le> x \<and> x < 2 powi (e + 53) \<and>
           \<bar>real_of_int m - x * 2 powi (- e)\<bar> \<le> 1 / 2"
proof -
  define k where "k = floor_log2 p q"
  have kb: "2 powi k \<le> x" "x < 2 powi (k + 1)"
    unfolding k_def assms(3) using floor_log2_bounds [OF assms(1,2)] by blast+
  have "(2::real) powi (- 1022) < 2 powi (k + 1)"
    using assms(4) kb(2) by simp
  then have "- 1022 < k + 1"
    by (simp only: pow2_less_iff)
  then have e: "max (k - 52) (- 1074) = k - 52"
    by simp
  from round_pos_spec [OF assms(1,2)] assms(3,5)
  obtain m where m: "round_pos p q = Inr (Double m (k - 52))" "0 \<le> m"
    "\<bar>real_of_int m - x * 2 powi (- (k - 52))\<bar> \<le> 1 / 2"
    unfolding k_def [symmetric] e by blast
  have eqs: "k - 52 + 52 = k" "k - 52 + 53 = k + 1"
    by simp_all
  have "2 powi (k - 52 + 52) \<le> x" "x < 2 powi (k - 52 + 53)"
    using kb by (simp_all only: eqs)
  with m show ?thesis
    by blast
qed

lemma int_of_float_nonneg:
  assumes "0 \<le> m" "e \<le> 0"
  shows "int_of_float (Double m e) = m div 2 ^ nat (- e)"
proof (cases "e = 0")
  case True
  then show ?thesis
    by (simp add: int_of_float_def)
next
  case False
  then have "e < 0"
    using assms(2) by simp
  then show ?thesis
    using assms(1) by (cases "m = 0") (simp_all add: int_of_float_def Let_def)
qed

lemma pow2_nat: "e \<le> 0 \<Longrightarrow> real_of_int (2 ^ nat (- e)) = 2 powi (- e)"
proof -
  assume "e \<le> 0"
  then have "- e = int (nat (- e))"
    by simp
  then have "(2::real) powi (- e) = 2 powi int (nat (- e))"
    by simp
  also have "\<dots> = 2 ^ nat (- e)"
    by (rule power_int_of_nat)
  finally show ?thesis
    by simp
qed

lemma pow2_half: "(2::real) powi (e - 1) * 2 powi (- e) = 1 / 2"
proof -
  have "(2::real) powi (e - 1) * 2 powi (- e) = 2 powi (e - 1 + - e)"
    by (rule pow2_add [symmetric])
  also have "e - 1 + - e = - 1"
    by simp
  finally show ?thesis
    by (simp add: inverse_eq_divide)
qed

lemma div_lower: "0 < S \<Longrightarrow> v * S \<le> m \<Longrightarrow> v \<le> m div (S::int)"
proof -
  assume S: "0 < S" and le: "v * S \<le> m"
  have "v = (v * S) div S"
    using S by simp
  also have "\<dots> \<le> m div S"
    using le S by (rule zdiv_mono1)
  finally show ?thesis .
qed

lemma div_upper: "0 < S \<Longrightarrow> m < (v + 1) * S \<Longrightarrow> m div (S::int) \<le> v"
proof (rule ccontr)
  assume S: "0 < S" and lt: "m < (v + 1) * S" and "\<not> m div S \<le> v"
  then have "v + 1 \<le> m div S"
    by simp
  then have "(v + 1) * S \<le> m div S * S"
    using S by (intro mult_right_mono) simp_all
  moreover have "0 \<le> m mod S"
    using S by simp
  moreover have "m div S * S + m mod S = m"
    by simp
  ultimately show False
    using lt by linarith
qed

lemma trunc_lower:
  assumes "e \<le> 0"
    and "\<bar>real_of_int m - x * 2 powi (- e)\<bar> \<le> 1 / 2"
    and "real_of_int v - 2 powi (e - 1) < x"
  shows "v \<le> m div 2 ^ nat (- e)"
proof -
  define S :: int where "S = 2 ^ nat (- e)"
  have S: "0 < S" "real_of_int S = 2 powi (- e)"
    using pow2_nat [OF assms(1)] by (simp_all add: S_def)
  have "(real_of_int v - 2 powi (e - 1)) * 2 powi (- e) < x * 2 powi (- e)"
    using assms(3) by (simp only: mult_less_cancel_right_pos zero_less_power_int zero_less_numeral)
  then have "real_of_int v * real_of_int S - 1 / 2 < x * 2 powi (- e)"
    by (simp add: left_diff_distrib pow2_half S(2))
  moreover have "x * 2 powi (- e) - 1 / 2 \<le> real_of_int m"
    using assms(2) by linarith
  ultimately have "real_of_int (v * S) - 1 < real_of_int m"
    by simp
  then have "real_of_int (v * S - 1) < real_of_int m"
    by simp
  then have "v * S - 1 < m"
    by (simp only: of_int_less_iff)
  then have "v * S \<le> m"
    by simp
  from div_lower [OF S(1) this] show ?thesis
    by (simp add: S_def)
qed

lemma trunc_upper:
  assumes "e \<le> 0"
    and "\<bar>real_of_int m - x * 2 powi (- e)\<bar> \<le> 1 / 2"
    and "x + 2 powi (e - 1) < real_of_int v + 1"
  shows "m div 2 ^ nat (- e) \<le> v"
proof -
  define S :: int where "S = 2 ^ nat (- e)"
  have S: "0 < S" "real_of_int S = 2 powi (- e)"
    using pow2_nat [OF assms(1)] by (simp_all add: S_def)
  have "(x + 2 powi (e - 1)) * 2 powi (- e) < (real_of_int v + 1) * 2 powi (- e)"
    using assms(3) by (simp only: mult_less_cancel_right_pos zero_less_power_int zero_less_numeral)
  then have "x * 2 powi (- e) + 1 / 2 < (real_of_int v + 1) * real_of_int S"
    by (simp add: distrib_right pow2_half S(2))
  moreover have "real_of_int m \<le> x * 2 powi (- e) + 1 / 2"
    using assms(2) by linarith
  ultimately have "real_of_int m < real_of_int ((v + 1) * S)"
    by simp
  then have "m < (v + 1) * S"
    by (simp only: of_int_less_iff)
  from div_upper [OF S(1) this] show ?thesis
    by (simp add: S_def)
qed

lemma div_half_even_one: "div_half_even P 1 = P"
  by (simp add: div_half_even_def)

lemma float_of_int_exact:
  assumes "0 < n" "n < 2 ^ 53"
  shows "\<exists>m e. float_of_int n = Inr (Double m e) \<and> 0 < m \<and>
           real_of_int m * 2 powi e = real_of_int n"
proof -
  define e where "e = max (floor_log2 n 1 - 52) (- 1074)"
  have "2 powi floor_log2 n 1 \<le> real_of_int n / real_of_int 1"
    using assms(1) by (intro floor_log2_bounds(1)) simp_all
  moreover have "real_of_int n < real_of_int (2 ^ 53)"
    using assms(2) by (simp only: of_int_less_iff)
  ultimately have "(2::real) powi floor_log2 n 1 < 2 powi 53"
    by simp
  then have "floor_log2 n 1 < 53"
    by (simp only: pow2_less_iff)
  then have e: "e \<le> 0"
    by (simp add: e_def)
  then have ne: "nat e = 0"
    by simp
  have "float_of_int n = round_pos n 1"
    using assms(1) by (simp add: float_of_int_def round_ratio_def)
  also have "\<dots> = Inr (Double (n * 2 ^ nat (- e)) e)"
    using assms(1) e
    by (simp add: round_pos_def Let_def e_def [symmetric] ne div_half_even_one)
  finally have f: "float_of_int n = Inr (Double (n * 2 ^ nat (- e)) e)" .
  have "real_of_int (n * 2 ^ nat (- e)) * 2 powi e =
        real_of_int n * (real_of_int (2 ^ nat (- e)) * 2 powi e)"
    by simp
  also have "real_of_int (2 ^ nat (- e)) * 2 powi e = 2 powi (- e) * 2 powi e"
    by (simp only: pow2_nat [OF e])
  also have "\<dots> = 2 powi (- e + e)"
    by (rule pow2_add [symmetric])
  finally have v: "real_of_int (n * 2 ^ nat (- e)) * 2 powi e = real_of_int n"
    by simp
  have "0 < n * 2 ^ nat (- e)"
    using assms(1) by simp
  with f v show ?thesis
    by blast
qed

lemma float_mul_pos:
  assumes "0 < m1" "0 < m2"
  shows "\<exists>p q. 0 < p \<and> 0 < q \<and>
           real_of_int p / real_of_int q =
             (real_of_int m1 * 2 powi e1) * (real_of_int m2 * 2 powi e2) \<and>
           float_mul (Double m1 e1) (Double m2 e2) = round_pos p q"
proof -
  define e where "e = e1 + e2"
  define p where "p = m1 * m2 * 2 ^ nat e"
  define q :: int where "q = 2 ^ nat (- e)"
  have pos: "0 < p" "0 < q"
    using assms by (simp_all add: p_def q_def)
  have "real_of_int p / real_of_int q =
        real_of_int m1 * real_of_int m2 * ((2::real) ^ nat e / 2 ^ nat (- e))"
    by (simp add: p_def q_def)
  also have "(2::real) ^ nat e / 2 ^ nat (- e) = 2 powi e"
    by (rule scale_ratio)
  also have "(2::real) powi e = 2 powi e1 * 2 powi e2"
    unfolding e_def by (rule pow2_add)
  finally have ratio: "real_of_int p / real_of_int q =
      (real_of_int m1 * 2 powi e1) * (real_of_int m2 * 2 powi e2)"
    by simp
  have "float_mul (Double m1 e1) (Double m2 e2) = round_pos p q"
    using pos by (simp add: float_mul_def Let_def round_ratio_def p_def q_def e_def)
  with pos ratio show ?thesis
    by blast
qed

lemma int_times_zero: "int_times 0 c = Inr 0"
  by (simp add: int_times_def int_mul_float_def float_of_int_def round_ratio_def round_pos_def
      float_mul_def bindE_def int_of_float_def Let_def)

lemma int_times_spec:
  assumes "0 < n" "n < 2 ^ 53" "0 < M"
    and "x = real_of_int n * (real_of_int M * 2 powi E)"
    and "2 powi (- 1022) \<le> x" "x < 2 powi 53"
  shows "\<exists>r. int_times n (Double M E) = Inr r \<and>
           (\<forall>v. real_of_int v \<le> x * (1 + 2 powi (- 54)) \<longrightarrow> v \<le> r) \<and>
           (\<forall>v. x * (1 + 2 powi (- 53)) < real_of_int v + 1 \<longrightarrow> r \<le> v)"
proof -
  from float_of_int_exact [OF assms(1,2)] obtain m1 e1 where
    f: "float_of_int n = Inr (Double m1 e1)" and m1: "0 < m1"
    and v1: "real_of_int m1 * 2 powi e1 = real_of_int n"
    by blast
  from float_mul_pos [OF m1 assms(3), of e1 E] obtain p q where
    pq: "0 < p" "0 < q"
    and ratio: "real_of_int p / real_of_int q =
      (real_of_int m1 * 2 powi e1) * (real_of_int M * 2 powi E)"
    and mul: "float_mul (Double m1 e1) (Double M E) = round_pos p q"
    by blast
  have xr: "x = real_of_int p / real_of_int q"
    by (simp only: ratio v1 assms(4))
  have "(53::int) < 1023"
    by simp
  then have "(2::real) powi 53 < 2 powi 1023"
    by (simp only: pow2_less_iff)
  then have x1023: "x < 2 powi 1023"
    using assms(6) by linarith
  from round_pos_normal [OF pq xr assms(5) x1023] obtain m e where
    r: "round_pos p q = Inr (Double m e)" and m: "0 \<le> m"
    and lo: "2 powi (e + 52) \<le> x" and hi: "x < 2 powi (e + 53)"
    and err: "\<bar>real_of_int m - x * 2 powi (- e)\<bar> \<le> 1 / 2"
    by blast
  have "(2::real) powi (e + 52) < 2 powi 53"
    using lo assms(6) by linarith
  then have "e + 52 < 53"
    by (simp only: pow2_less_iff)
  then have e: "e \<le> 0"
    by simp
  have res: "int_times n (Double M E) = Inr (m div 2 ^ nat (- e))"
    by (simp add: int_times_def int_mul_float_def f mul r bindE_def int_of_float_nonneg [OF m e])
  have a: "(2::real) powi (e + 53) * 2 powi (- 54) = 2 powi (e - 1)"
  proof -
    have "(2::real) powi (e + 53) * 2 powi (- 54) = 2 powi (e + 53 + - 54)"
      by (rule pow2_add [symmetric])
    also have "e + 53 + - 54 = e - 1"
      by simp
    finally show ?thesis .
  qed
  have b: "(2::real) powi (e + 52) * 2 powi (- 53) = 2 powi (e - 1)"
  proof -
    have "(2::real) powi (e + 52) * 2 powi (- 53) = 2 powi (e + 52 + - 53)"
      by (rule pow2_add [symmetric])
    also have "e + 52 + - 53 = e - 1"
      by simp
    finally show ?thesis .
  qed
  have "x * 2 powi (- 54) < 2 powi (e + 53) * 2 powi (- 54)"
    using hi by (simp only: mult_less_cancel_right_pos zero_less_power_int zero_less_numeral)
  then have small: "x * 2 powi (- 54) < 2 powi (e - 1)"
    by (simp only: a)
  have "2 powi (e + 52) * 2 powi (- 53) \<le> x * 2 powi (- 53)"
    using lo by (intro mult_right_mono) simp_all
  then have big: "2 powi (e - 1) \<le> x * 2 powi (- 53)"
    by (simp only: b)
  have "\<forall>v. real_of_int v \<le> x * (1 + 2 powi (- 54)) \<longrightarrow> v \<le> m div 2 ^ nat (- e)"
  proof (intro allI impI)
    fix v assume "real_of_int v \<le> x * (1 + 2 powi (- 54))"
    then have "real_of_int v \<le> x + x * 2 powi (- 54)"
      by (simp only: distrib_left mult_1_right)
    then have "real_of_int v - 2 powi (e - 1) < x"
      using small by linarith
    from trunc_lower [OF e err this] show "v \<le> m div 2 ^ nat (- e)" .
  qed
  moreover have "\<forall>v. x * (1 + 2 powi (- 53)) < real_of_int v + 1 \<longrightarrow> m div 2 ^ nat (- e) \<le> v"
  proof (intro allI impI)
    fix v assume "x * (1 + 2 powi (- 53)) < real_of_int v + 1"
    then have "x + x * 2 powi (- 53) < real_of_int v + 1"
      by (simp only: distrib_left mult_1_right)
    then have "x + 2 powi (e - 1) < real_of_int v + 1"
      using big by linarith
    from trunc_upper [OF e err this] show "m div 2 ^ nat (- e) \<le> v" .
  qed
  ultimately show ?thesis
    using res by blast
qed

lemma decimal_floor_bounds:
  fixes a b t :: int
  assumes "0 < b"
  defines "v \<equiv> (a * t) div b"
  shows "real_of_int v \<le> real_of_int a / real_of_int b * real_of_int t"
    and "real_of_int a / real_of_int b * real_of_int t + 1 / real_of_int b \<le> real_of_int v + 1"
proof -
  have bpos: "0 < real_of_int b"
    using assms(1) by simp
  have "b * v + (a * t) mod b = a * t"
    unfolding v_def by simp
  moreover have "0 \<le> (a * t) mod b" "(a * t) mod b < b"
    using assms(1) by simp_all
  ultimately have i: "b * v \<le> a * t" "a * t + 1 \<le> b * v + b"
    by linarith+
  have "real_of_int (b * v) \<le> real_of_int (a * t)"
    using i(1) by (simp only: of_int_le_iff)
  then have "real_of_int v * real_of_int b \<le> real_of_int a * real_of_int t"
    by (simp add: mult.commute)
  then show "real_of_int v \<le> real_of_int a / real_of_int b * real_of_int t"
    using bpos by (simp add: field_simps)
  have "real_of_int (a * t + 1) \<le> real_of_int (b * v + b)"
    using i(2) by (simp only: of_int_le_iff)
  then have "real_of_int a * real_of_int t + 1 \<le> (real_of_int v + 1) * real_of_int b"
    by (simp add: algebra_simps)
  then show "real_of_int a / real_of_int b * real_of_int t + 1 / real_of_int b \<le> real_of_int v + 1"
    using bpos by (simp add: field_simps)
qed

lemma real_bounds_48:
  fixes t :: int
  assumes "0 < t" "t < 2 ^ 48"
  shows "1 \<le> real_of_int t" "real_of_int t < 2 ^ 48"
proof -
  have "1 \<le> t"
    using assms(1) by simp
  then have "real_of_int 1 \<le> real_of_int t"
    by (simp only: of_int_le_iff)
  then show "1 \<le> real_of_int t"
    by simp
  have "real_of_int t < real_of_int (2 ^ 48)"
    using assms(2) by (simp only: of_int_less_iff)
  then show "real_of_int t < 2 ^ 48"
    by simp
qed

lemma int_times_scaled:
  fixes t M E :: int
  defines "c \<equiv> real_of_int M * 2 powi E"
  assumes "0 < t" "t < 2 ^ 48" "0 < M" "- 1022 \<le> E" "c < 32"
  shows "\<exists>r. int_times t (Double M E) = Inr r \<and>
           (\<forall>w. real_of_int w \<le> c * (1 + 2 powi (- 54)) * real_of_int t \<longrightarrow> w \<le> r) \<and>
           (\<forall>w. c * (1 + 2 powi (- 53)) * real_of_int t < real_of_int w + 1 \<longrightarrow> r \<le> w)"
proof -
  define x where "x = real_of_int t * c"
  note t = real_bounds_48 [OF assms(2,3)]
  have cpos: "0 < c"
    using assms(4) by (simp add: c_def)
  have tiny: "2 powi (- 1022) \<le> c"
  proof -
    have "(2::real) powi (- 1022) \<le> 2 powi E"
      using assms(5) by (simp only: pow2_le_iff)
    also have "\<dots> = 1 * 2 powi E"
      by simp
    also have "\<dots> \<le> real_of_int M * 2 powi E"
    proof (intro mult_right_mono)
      have "1 \<le> M"
        using assms(4) by simp
      then have "real_of_int 1 \<le> real_of_int M"
        by (simp only: of_int_le_iff)
      then show "1 \<le> real_of_int M"
        by simp
      show "0 \<le> (2::real) powi E"
        by simp
    qed
    finally show ?thesis
      by (simp only: c_def)
  qed
  have "t < 2 ^ 53"
    using assms(3) by simp
  moreover have "x = real_of_int t * (real_of_int M * 2 powi E)"
    by (simp add: x_def c_def)
  moreover have "2 powi (- 1022) \<le> x"
  proof -
    have "c * 1 \<le> c * real_of_int t"
      using t(1) cpos by (intro mult_left_mono) simp_all
    then have "c \<le> x"
      by (simp add: x_def mult.commute)
    with tiny show ?thesis
      by (rule order_trans)
  qed
  moreover have "x < 2 powi 53"
  proof -
    have "real_of_int t * c < 2 ^ 48 * c"
      using t(2) cpos by (simp only: mult_less_cancel_right_pos)
    also have "\<dots> \<le> 2 ^ 48 * 32"
      using assms(6) by simp
    finally show ?thesis
      by (simp add: x_def)
  qed
  ultimately obtain r where r: "int_times t (Double M E) = Inr r"
    and lo: "\<And>w. real_of_int w \<le> x * (1 + 2 powi (- 54)) \<Longrightarrow> w \<le> r"
    and hi: "\<And>w. x * (1 + 2 powi (- 53)) < real_of_int w + 1 \<Longrightarrow> r \<le> w"
    using int_times_spec [OF assms(2) _ assms(4)] by blast
  have x54: "c * (1 + 2 powi (- 54)) * real_of_int t = x * (1 + 2 powi (- 54))"
    and x53: "c * (1 + 2 powi (- 53)) * real_of_int t = x * (1 + 2 powi (- 53))"
    unfolding x_def by (simp_all only: mult_ac)
  show ?thesis
    using r lo hi unfolding x54 [symmetric] x53 [symmetric] by blast
qed

lemma times_less_48:
  fixes t :: int and g :: real
  assumes "0 < t" "t < 2 ^ 48" "0 < g"
  shows "g / 2 ^ 48 * real_of_int t < g"
proof -
  have "real_of_int t / 2 ^ 48 < 1"
    using real_bounds_48 [OF assms(1,2)] by simp
  then have "g * (real_of_int t / 2 ^ 48) < g * 1"
    using assms(3) by (simp only: mult_less_cancel_left_pos)
  then show ?thesis
    by simp
qed

lemma int_times_decimal:
  fixes a b t M E :: int
  defines "c \<equiv> real_of_int M * 2 powi E"
  defines "A \<equiv> real_of_int a / real_of_int b"
  assumes "0 < t" "t < 2 ^ 48" "0 < M" "0 < b"
    and "- 1022 \<le> E" "c < 32"
    and "A \<le> c * (1 + 2 powi (- 54))"
    and "c * (1 + 2 powi (- 53)) \<le> A + 1 / real_of_int b / 2 ^ 48"
  shows "int_times t (Double M E) = Inr ((a * t) div b)"
proof -
  define v where "v = (a * t) div b"
  note t = real_bounds_48 [OF assms(3,4)]
  from int_times_scaled [OF assms(3,4,5,7)] assms(8)
  obtain r where r: "int_times t (Double M E) = Inr r"
    and lo: "\<And>w. real_of_int w \<le> c * (1 + 2 powi (- 54)) * real_of_int t \<Longrightarrow> w \<le> r"
    and hi: "\<And>w. c * (1 + 2 powi (- 53)) * real_of_int t < real_of_int w + 1 \<Longrightarrow> r \<le> w"
    unfolding c_def by blast
  have fl: "real_of_int v \<le> A * real_of_int t"
    "A * real_of_int t + 1 / real_of_int b \<le> real_of_int v + 1"
    unfolding v_def A_def using decimal_floor_bounds [OF assms(6)] by blast+
  have bpos: "0 < 1 / real_of_int b"
    using assms(6) by simp
  have "A * real_of_int t \<le> c * (1 + 2 powi (- 54)) * real_of_int t"
    using assms(9) t(1) by (intro mult_right_mono) simp_all
  then have "real_of_int v \<le> c * (1 + 2 powi (- 54)) * real_of_int t"
    using fl(1) by linarith
  then have "v \<le> r"
    by (rule lo)
  have "c * (1 + 2 powi (- 53)) * real_of_int t \<le> (A + 1 / real_of_int b / 2 ^ 48) * real_of_int t"
    using assms(10) t(1) by (intro mult_right_mono) simp_all
  also have "\<dots> = A * real_of_int t + 1 / real_of_int b / 2 ^ 48 * real_of_int t"
    by (rule distrib_right)
  also have "\<dots> < A * real_of_int t + 1 / real_of_int b"
    using times_less_48 [OF assms(3,4) bpos] by simp
  also have "\<dots> \<le> real_of_int v + 1"
    using fl(2) .
  finally have "r \<le> v"
    by (rule hi)
  with \<open>v \<le> r\<close> r show ?thesis
    by (simp add: v_def)
qed

lemma int_times_decimal_below:
  fixes a b t M E :: int
  defines "c \<equiv> real_of_int M * 2 powi E"
  defines "A \<equiv> real_of_int a / real_of_int b"
  assumes "0 < t" "t < 2 ^ 48" "0 < M" "0 < b"
    and "- 1022 \<le> E" "c < 32"
    and "A - 1 / real_of_int b / 2 ^ 48 \<le> c * (1 + 2 powi (- 54))"
    and "c * (1 + 2 powi (- 53)) \<le> A + 1 / real_of_int b / 2 ^ 48"
  shows "\<exists>r. int_times t (Double M E) = Inr r \<and>
           (a * t) div b - 1 \<le> r \<and> r \<le> (a * t) div b \<and>
           (\<not> b dvd a * t \<longrightarrow> r = (a * t) div b)"
proof -
  define v where "v = (a * t) div b"
  note t = real_bounds_48 [OF assms(3,4)]
  from int_times_scaled [OF assms(3,4,5,7)] assms(8)
  obtain r where r: "int_times t (Double M E) = Inr r"
    and lo: "\<And>w. real_of_int w \<le> c * (1 + 2 powi (- 54)) * real_of_int t \<Longrightarrow> w \<le> r"
    and hi: "\<And>w. c * (1 + 2 powi (- 53)) * real_of_int t < real_of_int w + 1 \<Longrightarrow> r \<le> w"
    unfolding c_def by blast
  have fl: "real_of_int v \<le> A * real_of_int t"
    "A * real_of_int t + 1 / real_of_int b \<le> real_of_int v + 1"
    unfolding v_def A_def using decimal_floor_bounds [OF assms(6)] by blast+
  have bpos: "0 < 1 / real_of_int b"
    using assms(6) by simp
  have b1: "1 / real_of_int b \<le> 1"
  proof -
    have "1 \<le> b"
      using assms(6) by simp
    then have "real_of_int 1 \<le> real_of_int b"
      by (simp only: of_int_le_iff)
    then show ?thesis
      by simp
  qed
  have "(A - 1 / real_of_int b / 2 ^ 48) * real_of_int t \<le> c * (1 + 2 powi (- 54)) * real_of_int t"
    using assms(9) t(1) by (intro mult_right_mono) simp_all
  moreover have "(A - 1 / real_of_int b / 2 ^ 48) * real_of_int t =
      A * real_of_int t - 1 / real_of_int b / 2 ^ 48 * real_of_int t"
    by (rule left_diff_distrib)
  ultimately have low: "A * real_of_int t - 1 / real_of_int b < c * (1 + 2 powi (- 54)) * real_of_int t"
    using times_less_48 [OF assms(3,4) bpos] by linarith
  have "real_of_int (v - 1) \<le> c * (1 + 2 powi (- 54)) * real_of_int t"
    using low fl(1) b1 by simp
  then have lower: "v - 1 \<le> r"
    by (rule lo)
  have "c * (1 + 2 powi (- 53)) * real_of_int t \<le> (A + 1 / real_of_int b / 2 ^ 48) * real_of_int t"
    using assms(10) t(1) by (intro mult_right_mono) simp_all
  also have "\<dots> = A * real_of_int t + 1 / real_of_int b / 2 ^ 48 * real_of_int t"
    by (rule distrib_right)
  also have "\<dots> < A * real_of_int t + 1 / real_of_int b"
    using times_less_48 [OF assms(3,4) bpos] by simp
  also have "\<dots> \<le> real_of_int v + 1"
    using fl(2) .
  finally have upper: "r \<le> v"
    by (rule hi)
  have "r = v" if "\<not> b dvd a * t"
  proof -
    have "(a * t) mod b \<noteq> 0"
      using that by (simp add: dvd_eq_mod_eq_0)
    moreover have "0 \<le> (a * t) mod b"
      using assms(6) by simp
    moreover have "b * v + (a * t) mod b = a * t"
      unfolding v_def by simp
    ultimately have "b * v + 1 \<le> a * t"
      by linarith
    then have "real_of_int (b * v + 1) \<le> real_of_int (a * t)"
      by (simp only: of_int_le_iff)
    then have "real_of_int v * real_of_int b + 1 \<le> real_of_int a * real_of_int t"
      by (simp add: mult.commute)
    then have "(real_of_int v * real_of_int b + 1) / real_of_int b \<le>
        real_of_int a * real_of_int t / real_of_int b"
      using assms(6) by (intro divide_right_mono) simp_all
    moreover have "(real_of_int v * real_of_int b + 1) / real_of_int b =
        real_of_int v + 1 / real_of_int b"
      using assms(6) by (simp add: add_divide_distrib)
    moreover have "real_of_int a * real_of_int t / real_of_int b = A * real_of_int t"
      by (simp add: A_def)
    ultimately have "real_of_int v + 1 / real_of_int b \<le> A * real_of_int t"
      by simp
    then have "real_of_int v \<le> c * (1 + 2 powi (- 54)) * real_of_int t"
      using low by linarith
    then have "v \<le> r"
      by (rule lo)
    with upper show ?thesis
      by simp
  qed
  with r lower upper show ?thesis
    unfolding v_def by blast
qed

lemma int_times_0_95:
  assumes "0 < t" "t < 2 ^ 48"
  shows "int_times t c_0_95 = Inr ((19 * t) div 20)"
  unfolding c_0_95_eq
  by (rule int_times_decimal [OF assms]) simp_all

lemma int_times_1_05:
  assumes "0 < t" "t < 2 ^ 48"
  shows "int_times t c_1_05 = Inr ((21 * t) div 20)"
  unfolding c_1_05_eq
  by (rule int_times_decimal [OF assms]) simp_all

lemma int_times_0_1:
  assumes "0 < t" "t < 2 ^ 48"
  shows "int_times t c_0_1 = Inr ((1 * t) div 10)"
  unfolding c_0_1_eq
  by (rule int_times_decimal [OF assms]) simp_all

lemma int_times_0_15:
  assumes "0 < t" "t < 2 ^ 48"
  shows "int_times t c_0_15 = Inr ((3 * t) div 20)"
  unfolding c_0_15_eq
  by (rule int_times_decimal [OF assms]) simp_all

lemma int_times_0_05:
  assumes "0 < t" "t < 2 ^ 48"
  shows "int_times t c_0_05 = Inr ((1 * t) div 20)"
  unfolding c_0_05_eq
  by (rule int_times_decimal [OF assms]) simp_all


lemma int_times_0_7:
  assumes "0 < t" "t < 2 ^ 48"
  shows "\<exists>r. int_times t c_0_7 = Inr r \<and>
           (7 * t) div 10 - 1 \<le> r \<and> r \<le> (7 * t) div 10 \<and>
           (\<not> 10 dvd 7 * t \<longrightarrow> r = (7 * t) div 10)"
  unfolding c_0_7_eq
  by (rule int_times_decimal_below [OF assms]) simp_all

lemma mult_div_le_int: "0 < b \<Longrightarrow> b * (a div b) \<le> (a::int)"
proof -
  assume "0 < b"
  then have "0 \<le> a mod b"
    by simp
  moreover have "b * (a div b) + a mod b = a"
    by simp
  ultimately show ?thesis
    by linarith
qed

lemma quota_sum:
  fixes t :: int
  shows "(1 * t) div 10 + (7 * t) div 10 + (3 * t) div 20 + (1 * t) div 20 \<le> t"
proof -
  have "10 * ((1 * t) div 10) \<le> 1 * t" "10 * ((7 * t) div 10) \<le> 7 * t"
    "20 * ((3 * t) div 20) \<le> 3 * t" "20 * ((1 * t) div 20) \<le> 1 * t"
    by (rule mult_div_le_int, simp)+
  then show ?thesis
    by linarith
qed

lemma dvd_7: "(10::int) dvd 7 * t \<longleftrightarrow> 10 dvd t"
proof -
  have "coprime (10::int) 7"
    by (simp add: coprime_iff_gcd_eq_1 gcd_non_0_int)
  then show ?thesis
    by (rule coprime_dvd_mult_right_iff)
qed

lemma floor_decimal:
  fixes t a b :: int
  assumes "0 < b"
  shows "\<lfloor>real_of_int a / real_of_int b * real_of_int t\<rfloor> = (a * t) div b"
proof -
  have "real_of_int a / real_of_int b * real_of_int t = real_of_int (a * t) / real_of_int b"
    by simp
  then show ?thesis
    by (simp only: floor_divide_of_int_eq)
qed

lemma calc_section_words_zero:
  "calc_section_words 0 =
     Inr \<lparr>intro_words = 0, main_words = 0, practical_words = 0, summary_words = 0\<rparr>"
  by (simp add: calc_section_words_def int_times_zero)

lemma section_quotas_div:
  fixes t :: int
  assumes "0 \<le> t" "t < 2 ^ 48"
  shows "\<exists>r. calc_section_words t =
             Inr \<lparr>intro_words = (1 * t) div 10, main_words = r,
                  practical_words = (3 * t) div 20, summary_words = (1 * t) div 20\<rparr> \<and>
           (7 * t) div 10 - 1 \<le> r \<and> r \<le> (7 * t) div 10 \<and>
           (\<not> 10 dvd t \<longrightarrow> r = (7 * t) div 10)"
proof (cases "t = 0")
  case True
  then show ?thesis
    by (simp add: calc_section_words_zero)
next
  case False
  then have t: "0 < t" "t < 2 ^ 48"
    using assms by simp_all
  from int_times_0_7 [OF t] obtain r where
    r: "int_times t c_0_7 = Inr r" "(7 * t) div 10 - 1 \<le> r" "r \<le> (7 * t) div 10"
      "\<not> 10 dvd 7 * t \<longrightarrow> r = (7 * t) div 10"
    by blast
  have "calc_section_words t =
      Inr \<lparr>intro_words = (1 * t) div 10, main_words = r, practical_words = (3 * t) div 20,
           summary_words = (1 * t) div 20\<rparr>"
    unfolding calc_section_words_def
    by (simp only: int_times_0_1 [OF t] r(1) int_times_0_15 [OF t] int_times_0_05 [OF t]
        bindE_Inr)
  moreover have "\<not> 10 dvd t \<longrightarrow> r = (7 * t) div 10"
    using r(4) by (simp only: dvd_7)
  ultimately show ?thesis
    using r(2,3) by blast
qed

text \<open>
  The deviation test of the word-count validator.  For a quotient of two positive
  integers below \<open>2 ^ 52\<close> the rounded quotient exceeds the double nearest to 0.2
  exactly when the quotient itself exceeds one fifth.
\<close>

lemma pow2_nat_nonneg: "0 \<le> d \<Longrightarrow> real_of_int (2 ^ nat d) = 2 powi d"
  using pow2_nat [of "- d"] by simp

lemma float_less_real:
  "float_less (Double m1 e1) (Double m2 e2) \<longleftrightarrow>
   real_of_int m1 * 2 powi e1 < real_of_int m2 * 2 powi e2"
proof -
  define e0 where "e0 = min e1 e2"
  have d: "0 \<le> e1 - e0" "0 \<le> e2 - e0"
    by (simp_all add: e0_def)
  have s1: "(2::real) powi (e1 - e0) * 2 powi e0 = 2 powi e1"
  proof -
    have "(2::real) powi (e1 - e0) * 2 powi e0 = 2 powi (e1 - e0 + e0)"
      by (rule pow2_add [symmetric])
    then show ?thesis
      by simp
  qed
  have s2: "(2::real) powi (e2 - e0) * 2 powi e0 = 2 powi e2"
  proof -
    have "(2::real) powi (e2 - e0) * 2 powi e0 = 2 powi (e2 - e0 + e0)"
      by (rule pow2_add [symmetric])
    then show ?thesis
      by simp
  qed
  have "float_less (Double m1 e1) (Double m2 e2) \<longleftrightarrow>
        m1 * 2 ^ nat (e1 - e0) < m2 * 2 ^ nat (e2 - e0)"
    by (simp add: float_less_def Let_def e0_def)
  also have "\<dots> \<longleftrightarrow>
        real_of_int (m1 * 2 ^ nat (e1 - e0)) < real_of_int (m2 * 2 ^ nat (e2 - e0))"
    by (simp only: of_int_less_iff)
  also have "\<dots> \<longleftrightarrow>
        real_of_int m1 * 2 powi (e1 - e0) < real_of_int m2 * 2 powi (e2 - e0)"
    using pow2_nat_nonneg [OF d(1)] pow2_nat_nonneg [OF d(2)] by simp
  also have "\<dots> \<longleftrightarrow>
        real_of_int m1 * 2 powi (e1 - e0) * 2 powi e0 < real_of_int m2 * 2 powi (e2 - e0) * 2 powi e0"
    by (simp only: mult_less_cancel_right_pos zero_less_power_int zero_less_numeral)
  also have "\<dots> \<longleftrightarrow> real_of_int m1 * 2 powi e1 < real_of_int m2 * 2 powi e2"
    by (simp only: mult.assoc s1 s2)
  finally show ?thesis .
qed

lemma value_error:
  assumes "\<bar>real_of_int m - x * 2 powi (- e)\<bar> \<le> 1 / 2"
  shows "\<bar>real_of_int m * 2 powi e - x\<bar> \<le> 2 powi (e - 1)"
proof -
  have one: "(2::real) powi (- e) * 2 powi e = 1"
  proof -
    have "(2::real) powi (- e) * 2 powi e = 2 powi (- e + e)"
      by (rule pow2_add [symmetric])
    then show ?thesis
      by simp
  qed
  have half: "1 / 2 * (2::real) powi e = 2 powi (e - 1)"
  proof -
    have "(2::real) powi (e - 1) = 2 powi (e + - 1)"
      by simp
    also have "\<dots> = 2 powi e * 2 powi (- 1)"
      by (rule pow2_add)
    finally show ?thesis
      by (simp add: inverse_eq_divide)
  qed
  have "real_of_int m * 2 powi e - x = (real_of_int m - x * 2 powi (- e)) * 2 powi e"
    by (simp add: left_diff_distrib mult.assoc one)
  then have "\<bar>real_of_int m * 2 powi e - x\<bar> = \<bar>real_of_int m - x * 2 powi (- e)\<bar> * 2 powi e"
    by (simp add: abs_mult)
  also have "\<dots> \<le> 1 / 2 * 2 powi e"
    using assms by (intro mult_right_mono) simp_all
  finally show ?thesis
    by (simp only: half)
qed

lemma ratio_range:
  fixes a g :: int
  assumes "0 < a" "0 < g" "a < 2 ^ 52" "g < 2 ^ 52"
  defines "x \<equiv> real_of_int a / real_of_int g"
  shows "2 powi (- 1022) \<le> x" "x < 2 powi 1023" "0 < x"
proof -
  have ra: "1 \<le> real_of_int a" "real_of_int a < 2 ^ 52"
  proof -
    have "1 \<le> a"
      using assms(1) by simp
    then have "real_of_int 1 \<le> real_of_int a"
      by (simp only: of_int_le_iff)
    then show "1 \<le> real_of_int a"
      by simp
    have "real_of_int a < real_of_int (2 ^ 52)"
      using assms(3) by (simp only: of_int_less_iff)
    then show "real_of_int a < 2 ^ 52"
      by simp
  qed
  have rg: "1 \<le> real_of_int g" "real_of_int g < 2 ^ 52"
  proof -
    have "1 \<le> g"
      using assms(2) by simp
    then have "real_of_int 1 \<le> real_of_int g"
      by (simp only: of_int_le_iff)
    then show "1 \<le> real_of_int g"
      by simp
    have "real_of_int g < real_of_int (2 ^ 52)"
      using assms(4) by (simp only: of_int_less_iff)
    then show "real_of_int g < 2 ^ 52"
      by simp
  qed
  have gpos: "0 < real_of_int g"
    using rg(1) by linarith
  have xg: "x * real_of_int g = real_of_int a"
    using gpos by (simp add: x_def)
  show "0 < x"
    using ra(1) gpos by (simp add: x_def)
  have "2 powi (- 52) * real_of_int g \<le> 2 powi (- 52) * 2 ^ 52"
    using rg(2) by (intro mult_left_mono) simp_all
  also have "\<dots> = 1"
    by simp
  also have "\<dots> \<le> x * real_of_int g"
    using ra(1) by (simp only: xg)
  finally have "2 powi (- 52) \<le> x"
    using gpos by (simp only: mult_le_cancel_right_pos)
  moreover have "(2::real) powi (- 1022) \<le> 2 powi (- 52)"
    by (rule power_int_increasing) simp_all
  ultimately show "2 powi (- 1022) \<le> x"
    by linarith
  have "x * 1 \<le> x * real_of_int g"
    using rg(1) \<open>0 < x\<close> by (intro mult_left_mono) simp_all
  then have "x < 2 ^ 52"
    using xg ra(2) by simp
  moreover have "(2::real) powi 52 < 2 powi 1023"
    by (rule power_int_strict_increasing) simp_all
  ultimately show "x < 2 powi 1023"
    by simp
qed

lemma deviation_test:
  fixes a g :: int
  assumes "0 < a" "0 < g" "a < 2 ^ 52" "g < 2 ^ 52"
  shows "\<exists>m e. true_divide a g = Inr (Double m e) \<and>
           (7205759403792794 * 2 powi (- 55) < real_of_int m * 2 powi e \<longleftrightarrow> g < 5 * a)"
proof -
  define x where "x = real_of_int a / real_of_int g"
  define T :: real where "T = 7205759403792794 * 2 powi (- 55)"
  note range = ratio_range [OF assms, folded x_def]
  from round_pos_normal [OF assms(1,2) x_def range(1,2)] obtain m e where
    r: "round_pos a g = Inr (Double m e)" and m: "0 \<le> m"
    and lo: "2 powi (e + 52) \<le> x" and hi: "x < 2 powi (e + 53)"
    and err: "\<bar>real_of_int m - x * 2 powi (- e)\<bar> \<le> 1 / 2"
    by blast
  define y where "y = real_of_int m * 2 powi e"
  have td: "true_divide a g = Inr (Double m e)"
    using assms(1,2) r by (simp add: true_divide_def round_ratio_def)
  have yerr: "\<bar>y - x\<bar> \<le> 2 powi (e - 1)"
    unfolding y_def using err by (rule value_error)
  have gpos: "0 < real_of_int g"
    using assms(2) by simp
  have xg: "x * real_of_int g = real_of_int a"
    using gpos by (simp add: x_def)
  have Tval: "T = 7205759403792794 / 2 ^ 55"
    by (simp add: T_def power_int_minus_divide)
  have big: "2 powi (e - 1) \<le> x * 2 powi (- 53)"
  proof -
    have "(2::real) powi (e + 52) * 2 powi (- 53) = 2 powi (e + 52 + - 53)"
      by (rule pow2_add [symmetric])
    also have "e + 52 + - 53 = e - 1"
      by simp
    finally have "(2::real) powi (e - 1) = 2 powi (e + 52) * 2 powi (- 53)"
      by simp
    also have "\<dots> \<le> x * 2 powi (- 53)"
      using lo by (intro mult_right_mono) simp_all
    finally show ?thesis .
  qed
  have up: "T < y" if "g < 5 * a"
  proof -
    have "g + 1 \<le> 5 * a"
      using that by simp
    then have "real_of_int (g + 1) \<le> real_of_int (5 * a)"
      by (simp only: of_int_le_iff)
    then have "real_of_int g + 1 \<le> 5 * (x * real_of_int g)"
      by (simp add: xg)
    moreover have "real_of_int g < 2 ^ 52"
    proof -
      have "real_of_int g < real_of_int (2 ^ 52)"
        using assms(4) by (simp only: of_int_less_iff)
      then show ?thesis
        by simp
    qed
    ultimately have "(2 ^ 52 + 1) / (5 * 2 ^ 52) * real_of_int g \<le> x * real_of_int g"
      by (simp add: field_simps)
    then have L: "(2 ^ 52 + 1) / (5 * 2 ^ 52) \<le> x"
      using gpos by (simp only: mult_le_cancel_right_pos)
    have "x * 2 powi (- 53) = x / 2 ^ 53"
      by (simp add: power_int_minus_divide)
    then have "x - x / 2 ^ 53 \<le> y"
      using yerr big by linarith
    then show ?thesis
      using L Tval by (simp add: field_simps)
  qed
  have down: "y \<le> T" if "5 * a \<le> g"
  proof -
    have "real_of_int (5 * a) \<le> real_of_int g"
      using that by (simp only: of_int_le_iff)
    then have "5 * (x * real_of_int g) \<le> 1 * real_of_int g"
      by (simp add: xg)
    then have "5 * x * real_of_int g \<le> 1 * real_of_int g"
      by (simp only: mult.assoc)
    then have "5 * x \<le> 1"
      using gpos by (simp only: mult_le_cancel_right_pos)
    then have x5: "x \<le> 1 / 5"
      by simp
    have "(2::real) powi (e + 52) < 2 powi (- 2)"
    proof -
      have "(2::real) powi (- 2) = 1 / 4"
        by (simp add: power_int_minus_divide)
      then show ?thesis
        using lo x5 by linarith
    qed
    then have "e + 52 < - 2"
      by (simp only: pow2_less_iff)
    then consider "e = - 55" | "e \<le> - 56"
      by linarith
    then show ?thesis
    proof cases
      case 1
      have "x * 2 powi 55 \<le> 1 / 5 * 2 powi 55"
        using x5 by (intro mult_right_mono) simp_all
      moreover have "\<bar>real_of_int m - x * 2 powi 55\<bar> \<le> 1 / 2"
        using err 1 by simp
      ultimately have "real_of_int m \<le> 1 / 5 * 2 powi 55 + 1 / 2"
        by linarith
      also have "\<dots> < real_of_int 7205759403792795"
        by simp
      finally have "m < 7205759403792795"
        by (simp only: of_int_less_iff)
      then have "m \<le> 7205759403792794"
        by simp
      then have "real_of_int m \<le> real_of_int 7205759403792794"
        by (simp only: of_int_le_iff)
      then have "real_of_int m * 2 powi (- 55) \<le> 7205759403792794 * 2 powi (- 55)"
        by (intro mult_right_mono) simp_all
      then show ?thesis
        by (simp only: y_def T_def 1)
    next
      case 2
      then have "e + 53 \<le> - 3" "e - 1 \<le> - 57"
        by simp_all
      then have "(2::real) powi (e + 53) \<le> 2 powi (- 3)" "(2::real) powi (e - 1) \<le> 2 powi (- 57)"
        by (simp_all only: pow2_le_iff)
      moreover have "(2::real) powi (- 3) = 1 / 8" "(2::real) powi (- 57) = 1 / 2 ^ 57"
        by (simp_all add: power_int_minus_divide)
      ultimately have "y < 1 / 8 + 1 / 2 ^ 57"
        using yerr hi by linarith
      then show ?thesis
        using Tval by simp
    qed
  qed
  have "T < y \<longleftrightarrow> g < 5 * a"
    using up down by fastforce
  then show ?thesis
    using td unfolding T_def y_def by blast
qed

subsection \<open>Substrings and counting\<close>

lemma startswith_iff: "startswith s p \<longleftrightarrow> (\<exists>r. s = p @ r)"
  by (induction s p rule: startswith.induct) auto

lemma contains_iff: "contains s sub \<longleftrightarrow> (\<exists>a b. s = a @ sub @ b)"
proof (induction s)
  case Nil
  show ?case by auto
next
  case (Cons c cs)
  have "(\<exists>a b. c # cs = a @ sub @ b) \<longleftrightarrow>
        (\<exists>r. c # cs = sub @ r) \<or> (\<exists>a b. cs = a @ sub @ b)"
  proof
    assume "\<exists>a b. c # cs = a @ sub @ b"
    then obtain a b where ab: "c # cs = a @ sub @ b" by blast
    show "(\<exists>r. c # cs = sub @ r) \<or> (\<exists>a b. cs = a @ sub @ b)"
    proof (cases a)
      case Nil
      with ab show ?thesis by auto
    next
      case (Cons x a')
      with ab have "cs = a' @ sub @ b" by simp
      then show ?thesis by blast
    qed
  next
    assume "(\<exists>r. c # cs = sub @ r) \<or> (\<exists>a b. cs = a @ sub @ b)"
    then show "\<exists>a b. c # cs = a @ sub @ b"
    proof
      assume "\<exists>r. c # cs = sub @ r"
      then obtain r where "c # cs = [] @ sub @ r" by auto
      then show ?thesis by blast
    next
      assume "\<exists>a b. cs = a @ sub @ b"
      then obtain a b where "c # cs = (c # a) @ sub @ b" by auto
      then show ?thesis by blast
    qed
  qed
  then show ?case
    using Cons.IH by (simp add: startswith_iff)
qed

lemma count_sub_empty: "count_sub s [] = length s + 1"
  by (subst count_sub.simps) simp

lemma count_sub_Nil: "sub \<noteq> [] \<Longrightarrow> count_sub [] sub = 0"
  by (subst count_sub.simps) simp

lemma count_sub_match:
  "sub \<noteq> [] \<Longrightarrow> s \<noteq> [] \<Longrightarrow> startswith s sub \<Longrightarrow>
   count_sub s sub = 1 + count_sub (drop (length sub) s) sub"
  by (subst count_sub.simps) simp

lemma count_sub_skip:
  "sub \<noteq> [] \<Longrightarrow> s \<noteq> [] \<Longrightarrow> \<not> startswith s sub \<Longrightarrow>
   count_sub s sub = count_sub (tl s) sub"
  by (subst count_sub.simps) simp

lemma count_sub_pos:
  "sub \<noteq> [] \<Longrightarrow> 0 < count_sub s sub \<longleftrightarrow> contains s sub"
proof (induction s sub rule: count_sub.induct)
  case (1 s sub)
  show ?case
  proof (cases s)
    case Nil
    with "1.prems" show ?thesis
      by (simp add: count_sub_Nil)
  next
    case (Cons c cs)
    show ?thesis
    proof (cases "startswith s sub")
      case True
      then show ?thesis
        using count_sub_match [OF "1.prems" _ True] Cons by simp
    next
      case False
      then have "count_sub s sub = count_sub cs sub"
        using count_sub_skip [OF "1.prems" _ False] Cons by simp
      moreover have "0 < count_sub (tl s) sub \<longleftrightarrow> contains (tl s) sub"
        using "1.IH"(2) [OF "1.prems" _ False "1.prems"] Cons by simp
      ultimately show ?thesis
        using False Cons by simp
    qed
  qed
qed

lemma count_sub_ge2:
  "sub \<noteq> [] \<Longrightarrow> 2 \<le> count_sub s sub \<longleftrightarrow> (\<exists>a b c. s = a @ sub @ b @ sub @ c)"
proof (induction s sub rule: count_sub.induct)
  case (1 s sub)
  note ne = "1.prems"
  show ?case
  proof (cases s)
    case Nil
    with ne show ?thesis
      by (simp add: count_sub_Nil)
  next
    case (Cons x xs)
    then have nonempty: "s \<noteq> []"
      by simp
    show ?thesis
    proof (cases "startswith s sub")
      case True
      then obtain r where r: "s = sub @ r"
        by (auto simp: startswith_iff)
      from count_sub_match [OF ne nonempty True] have cnt: "count_sub s sub = 1 + count_sub r sub"
        by (simp add: r)
      have "contains r sub \<longleftrightarrow> (\<exists>a b c. s = a @ sub @ b @ sub @ c)"
      proof
        assume "contains r sub"
        then obtain a b where "r = a @ sub @ b"
          by (auto simp: contains_iff)
        with r have "s = [] @ sub @ a @ sub @ b" by simp
        then show "\<exists>a b c. s = a @ sub @ b @ sub @ c" by blast
      next
        assume "\<exists>a b c. s = a @ sub @ b @ sub @ c"
        then obtain a b c where abc: "s = a @ sub @ b @ sub @ c" by blast
        define z where "z = drop (length sub) (a @ sub @ b)"
        have "drop (length sub) (a @ sub @ b @ sub @ c) = z @ sub @ c"
          unfolding z_def by simp
        moreover have "r = drop (length sub) s"
          using r by simp
        ultimately have "r = z @ sub @ c"
          using abc by simp
        then show "contains r sub"
          unfolding contains_iff by blast
      qed
      then show ?thesis
        using cnt count_sub_pos [OF ne, of r] by auto
    next
      case False
      from count_sub_skip [OF ne nonempty False]
      have cnt: "count_sub s sub = count_sub (tl s) sub" .
      have IH: "2 \<le> count_sub (tl s) sub \<longleftrightarrow> (\<exists>a b c. tl s = a @ sub @ b @ sub @ c)"
        using "1.IH"(2) [OF ne _ False ne] Cons by simp
      have "(\<exists>a b c. tl s = a @ sub @ b @ sub @ c) \<longleftrightarrow> (\<exists>a b c. s = a @ sub @ b @ sub @ c)"
      proof
        assume "\<exists>a b c. tl s = a @ sub @ b @ sub @ c"
        then obtain a b c where "tl s = a @ sub @ b @ sub @ c" by blast
        with Cons have "s = (x # a) @ sub @ b @ sub @ c" by simp
        then show "\<exists>a b c. s = a @ sub @ b @ sub @ c" by blast
      next
        assume "\<exists>a b c. s = a @ sub @ b @ sub @ c"
        then obtain a b c where abc: "s = a @ sub @ b @ sub @ c" by blast
        have "a \<noteq> []"
        proof
          assume "a = []"
          with abc have "startswith s sub"
            by (simp add: startswith_iff)
          with False show False by simp
        qed
        then obtain y a' where "a = y # a'"
          by (cases a) auto
        with abc have "tl s = a' @ sub @ b @ sub @ c" by simp
        then show "\<exists>a b c. tl s = a @ sub @ b @ sub @ c" by blast
      qed
      with IH cnt show ?thesis by simp
    qed
  qed
qed

lemma lower_eq_Nil [simp]: "lower s = [] \<longleftrightarrow> s = []"
  by (simp add: lower_def)

lemma objective_uncovered_iff:
  "objective_uncovered content objective \<longleftrightarrow>
   \<not> list_ex (\<lambda>trm. contains (lower content) (lower trm)) (split_ws objective)"
  by (simp add: objective_uncovered_def occurs_in_def contains_iff list_ex_iff)

lemma topic_uncovered_iff:
  "topic_uncovered content t \<longleftrightarrow>
   \<not> list_ex (\<lambda>c. contains (lower content) (lower c)) (key_concepts t)"
  by (simp add: topic_uncovered_def occurs_in_def contains_iff list_ex_iff)

lemma term_underused_iff:
  "term_underused content trm \<longleftrightarrow> count_sub (lower content) (lower trm) < 2"
proof (cases "trm = []")
  case True
  then show ?thesis
    by (auto simp: term_underused_def lower_def count_sub_empty)
next
  case False
  then have "lower trm \<noteq> []"
    by simp
  from count_sub_ge2 [OF this, of "lower content"] False show ?thesis
    by (auto simp: term_underused_def occurs_twice_in_def)
qed

lemma check_objectives_eq:
  "check_objectives content objs logged =
   logged @ map (\<lambda>obj. (Warning, ObjectiveNotCovered obj))
     (filter (objective_uncovered content) objs)"
  by (induction objs arbitrary: logged) (simp_all add: objective_uncovered_iff)

lemma check_key_terms_eq:
  "check_key_terms content terms logged =
   logged @ map (\<lambda>trm. (Warning, KeyTermUnderutilized trm))
     (filter (term_underused content) terms)"
  by (induction terms arbitrary: logged) (simp_all add: term_underused_iff)

lemma check_topics_eq:
  "check_topics content ts logged =
   logged @ map (\<lambda>t. (Warning, TopicNotCovered (title t)))
     (filter (topic_uncovered content) ts)"
  by (induction ts arbitrary: logged) (simp_all add: topic_uncovered_iff)

subsection \<open>The topic loop\<close>

lemma topic_loop_append:
  "topic_loop E sd txt ex tw (xs @ ys) st =
   bindE (topic_loop E sd txt ex tw xs st) (topic_loop E sd txt ex tw ys)"
proof (induction xs arbitrary: st)
  case Nil
  show ?case by simp
next
  case (Cons t xs)
  obtain ctx cs i where st: "st = (ctx, cs, i)"
    by (cases st) auto
  show ?case
    unfolding st
    by (cases "tw (title t)"; cases "enter_topic t ctx")
       (auto simp: Cons.IH generate_section_def bindE_def split: sum.splits)
qed

lemma enter_topic_head:
  assumes "pending_topics ctx = title t # P"
  shows "\<exists>ctx1. enter_topic t ctx = Inr ctx1 \<and>
           covered_topics ctx1 = covered_topics ctx @ [title t] \<and>
           pending_topics ctx1 = P \<and>
           ctx_key_terms ctx1 = ctx_key_terms ctx \<union> set (key_concepts t)"
  using assms by (simp add: enter_topic_def list_remove_def)

lemma topic_loop_runs:
  assumes "pending_topics ctx = map title ts @ P"
    and "\<forall>t \<in> set ts. tw (title t) \<noteq> None"
    and "\<forall>n < length ts. \<forall>r. \<exists>s. provider E (i + n) r = Inr s"
  shows "\<exists>ctx' cs'. topic_loop E sd txt ex tw ts (ctx, cs, i) = Inr (ctx', cs', i + length ts) \<and>
           covered_topics ctx' = covered_topics ctx @ map title ts \<and>
           pending_topics ctx' = P \<and>
           ctx_key_terms ctx' = ctx_key_terms ctx \<union> (\<Union>t \<in> set ts. set (key_concepts t))"
  using assms
proof (induction ts arbitrary: ctx cs i)
  case Nil
  then show ?case by simp
next
  case (Cons t ts)
  from Cons.prems(2) obtain q where q: "tw (title t) = Some q"
    by auto
  from Cons.prems(1) have "pending_topics ctx = title t # (map title ts @ P)"
    by simp
  from enter_topic_head [OF this] obtain ctx1 where
    e: "enter_topic t ctx = Inr ctx1"
    and c1: "covered_topics ctx1 = covered_topics ctx @ [title t]"
    and p1: "pending_topics ctx1 = map title ts @ P"
    and k1: "ctx_key_terms ctx1 = ctx_key_terms ctx \<union> set (key_concepts t)"
    by blast
  from Cons.prems(3) [rule_format, of 0] obtain s where
    s: "provider E i (SectionRequest (''main_topic_'' @ title t) sd q ex (Some ctx1)) = Inr s"
    by auto
  let ?ctx2 = "ctx1\<lparr>current_narrative := last_chars 1000 s\<rparr>"
  have p2: "pending_topics ?ctx2 = map title ts @ P"
    using p1 by simp
  have a2: "\<forall>t \<in> set ts. tw (title t) \<noteq> None"
    using Cons.prems(2) by simp
  have ok2: "\<forall>n < length ts. \<forall>r. \<exists>s. provider E (Suc i + n) r = Inr s"
  proof (intro allI impI)
    fix n r assume "n < length ts"
    then have "Suc n < length (t # ts)" by simp
    from Cons.prems(3) [rule_format, OF this, of r] show "\<exists>s. provider E (Suc i + n) r = Inr s"
      by simp
  qed
  from Cons.IH [OF p2 a2 ok2, of "cs @ [s]"] obtain ctx' cs' where
    "topic_loop E sd txt ex tw ts (?ctx2, cs @ [s], Suc i) = Inr (ctx', cs', Suc i + length ts)"
    "covered_topics ctx' = covered_topics ?ctx2 @ map title ts"
    "pending_topics ctx' = P"
    "ctx_key_terms ctx' = ctx_key_terms ?ctx2 \<union> (\<Union>t \<in> set ts. set (key_concepts t))"
    by blast
  then show ?case
    using q e s c1 k1 by (auto simp: generate_section_def)
qed


lemmas string_eval = strip_def is_space_def split_ws_def split_lines_def lower_def lower_char_def

subsection \<open>The planner and its fallback\<close>

lemma floor_div_eq_Inr: "floor_div a b = Inr c \<longleftrightarrow> b \<noteq> 0 \<and> c = a div b"
  by (auto simp: floor_div_def)

lemma fallback_from_lines_topics:
  assumes "fallback_from_lines E text D i = Inr s"
  shows "topics s \<noteq> []"
  using assms
  by (auto simp: fallback_from_lines_def Let_def bindE_eq_Inr floor_div_eq_Inr)

lemma minimal_structure_topics: "topics (minimal_structure D) \<noteq> []"
  by (simp add: minimal_structure_def)

lemma fallback_has_topic:
  "\<exists>s. generate_fallback_structure E text D i = Inr s \<and> topics s \<noteq> []"
  by (cases "fallback_from_lines E text D i")
     (simp_all add: generate_fallback_structure_def minimal_structure_topics
        fallback_from_lines_topics)

lemma response_lines_nonempty: "l \<in> set (response_lines r) \<Longrightarrow> l \<noteq> []"
  by (auto simp: response_lines_def)

lemma filter_nonempty_lines:
  "filter (\<lambda>l. l \<noteq> []) (take n (drop k (response_lines r))) = take n (drop k (response_lines r))"
  by (rule filter_True) (auto dest!: in_set_takeD in_set_dropD response_lines_nonempty)

lemma fallback_characterised:
  "generate_fallback_structure E text D i =
     Inr (case provider E i (FallbackRequest (take 1000 text)) of
            Inl e \<Rightarrow> minimal_structure D
          | Inr response \<Rightarrow>
              (case int_times D c_0_7 of
                 Inl e \<Rightarrow> minimal_structure D
               | Inr main_time \<Rightarrow>
                   if 5 \<le> length (response_lines response)
                   then structure_from_lines main_time (response_lines response)
                   else minimal_structure D))"
proof (cases "provider E i (FallbackRequest (take 1000 text))")
  case (Inl e)
  then show ?thesis
    by (simp add: generate_fallback_structure_def fallback_from_lines_def)
next
  case (Inr response)
  show ?thesis
  proof (cases "int_times D c_0_7")
    case (Inl e)
    then show ?thesis
      using Inr by (simp add: generate_fallback_structure_def fallback_from_lines_def)
  next
    case main: (Inr main_time)
    define lines where "lines = response_lines response"
    have ne: "\<And>n k. filter (\<lambda>l. l \<noteq> []) (take n (drop k lines)) = take n (drop k lines)"
      unfolding lines_def by (rule filter_nonempty_lines)
    have body: "fallback_from_lines E text D i =
        bindE (floor_div main_time (int (length (take 3 (drop 4 lines))))) (\<lambda>topic_minutes.
          Inr \<lparr>lecture_title = (case lines of [] \<Rightarrow> ''Lecture'' | l # _ \<Rightarrow> l),
               learning_objectives = take 3 (drop 1 lines),
               topics = map (fallback_topic topic_minutes) (take 3 (drop 4 lines)),
               practical_applications =
                 [''Real-world application example'', ''Interactive exercise'', ''Case study''],
               key_terms = take 3 (drop 7 lines)\<rparr>)"
      using Inr main
      by (simp add: fallback_from_lines_def Let_def lines_def [symmetric] ne)
    show ?thesis
    proof (cases "5 \<le> length lines")
      case True
      then obtain l ls where "lines = l # ls"
        by (cases lines) auto
      moreover have "take 3 (drop 4 lines) \<noteq> []"
        using True by simp
      ultimately show ?thesis
        using Inr main True
        by (simp add: generate_fallback_structure_def body floor_div_def structure_from_lines_def
            lines_def [symmetric])
    next
      case False
      then have "take 3 (drop 4 lines) = []"
        by simp
      then show ?thesis
        using Inr main False
        by (simp add: generate_fallback_structure_def body floor_div_def lines_def [symmetric])
    qed
  qed
qed

subsection \<open>A run whose practical call fails\<close>

lemma budget_1300:
  "word_bounds 130 10 = Inr (1300, 1235, 1365)"
  "calc_section_words 1300 =
     Inr \<lparr>intro_words = 130, main_words = 909, practical_words = 195, summary_words = 65\<rparr>"
  by (simp_all add: word_bounds_def calc_section_words_def c_0_95_eq c_1_05_eq c_0_1_eq c_0_7_eq
      c_0_15_eq c_0_05_eq float_eval)

lemma practical_fails_plan:
  "generate_detailed_structure practical_fails_env ''X'' 10 0 =
     Inr (Structure (minimal_structure 10), 2)"
proof -
  have "response_lines ''Ab ab'' = [''Ab ab'']"
    by (simp add: response_lines_def string_eval)
  moreover have "int_times 10 c_0_7 = Inr 7"
    by (simp add: c_0_7_eq float_eval)
  ultimately have "generate_fallback_structure practical_fails_env ''X'' 10 1 =
      Inr (minimal_structure 10)"
    by (simp add: fallback_characterised practical_fails_env_def echo_env_def practical_fails_def)
  then show ?thesis
    by (simp add: generate_detailed_structure_def practical_fails_env_def echo_env_def
        practical_fails_def json_match_def strip_def is_space_def)
qed

lemma practical_fails_main:
  "generate_main_content practical_fails_env (minimal_structure 10) ''X'' 909 True
     (seeded_context (minimal_structure 10) ''Ab ab'') 3 =
   Inr (''Ab ab'',
        (seeded_context (minimal_structure 10) ''Ab ab'')
          \<lparr>current_topic := Some ''Main Topic'', covered_topics := [''Main Topic''],
           pending_topics := [], ctx_key_terms := {''Core concept''},
           current_narrative := ''Ab ab''\<rparr>, 4)"
proof -
  have "true_divide 5 5 = Inr (Double 4503599627370496 (- 52))"
    by (simp add: float_eval)
  moreover have "int_times 909 (Double 4503599627370496 (- 52)) = Inr 909"
    by (simp add: float_eval)
  ultimately show ?thesis
    by (simp add: generate_main_content_def minimal_structure_def seeded_context_def
        enter_topic_def list_remove_def generate_section_def practical_fails_env_def
        echo_env_def practical_fails_def last_chars_def)
qed

section \<open>The coherence validator logs one warning per gap\<close>

text \<open>
  Claim C9.  For every text and structure, the log of the coherence validator is: its
  opening record; one warning for each learning objective none of whose whitespace-split
  tokens occurs in the text, case-insensitively, in the order of the objectives; one
  warning for each key term that occurs fewer than two times, case-insensitively; one
  warning for each topic none of whose key concepts occurs; its closing record.  The three
  checks are independent: each contributes its own warnings whatever the others found.
\<close>

theorem coherence_warnings:
  "validate_coherence content sd =
     [(Info, ValidatingCoherence)]
     @ map (\<lambda>obj. (Warning, ObjectiveNotCovered obj))
         (filter (objective_uncovered content) (learning_objectives sd))
     @ map (\<lambda>trm. (Warning, KeyTermUnderutilized trm))
         (filter (term_underused content) (key_terms sd))
     @ map (\<lambda>t. (Warning, TopicNotCovered (title t)))
         (filter (topic_uncovered content) (topics sd))
     @ [(Info, CoherenceComplete)]"
  by (simp add: validate_coherence_def check_objectives_eq check_key_terms_eq check_topics_eq)

theorem coherence_warnings_witness:
  "validate_coherence ''Ab ab'' three_topics =
     [(Info, ValidatingCoherence),
      (Warning, ObjectiveNotCovered ''cd''),
      (Warning, KeyTermUnderutilized ''b a''),
      (Warning, TopicNotCovered ''T2''),
      (Info, CoherenceComplete)]"
  by (subst coherence_warnings)
     (simp add: three_topics_def topic_of_def objective_uncovered_iff term_underused_iff
        topic_uncovered_iff string_eval count_sub.simps)

section \<open>The invariant of the topic loop\<close>

text \<open>
  Claim C10.  Let the topic titles be unique and let the context be seeded as
  \<open>transform_to_lecture\<close> seeds it: \<open>pending_topics\<close> holds all the titles of the
  structure and \<open>covered_topics\<close> is empty.  Then after the loop has processed any
  initial part \<open>seen\<close> of the topics (the completion calls having answered, and the
  dictionary of quotas holding the titles), the loop has not raised, and it continues on
  the remaining topics from a state in which \<open>covered_topics\<close> holds the titles of
  \<open>seen\<close> and \<open>pending_topics\<close> those of the rest, both in structure order; their
  concatenation is a permutation of all the titles, each occurring once; and
  \<open>key_terms\<close> has only grown: it is the initial set together with the key concepts of
  the topics processed so far.
\<close>

theorem topic_loop_invariant:
  assumes "distinct (map title (topics sd))"
    and "pending_topics ctx = map title (topics sd)"
    and "covered_topics ctx = []"
    and "topics sd = seen @ rest"
    and "\<forall>t \<in> set seen. tw (title t) \<noteq> None"
    and "\<forall>n < length seen. \<forall>r. \<exists>s. provider E (i + n) r = Inr s"
  shows "\<exists>ctx' cs'.
           topic_loop E sd original_text ex tw seen (ctx, cs, i) = Inr (ctx', cs', i + length seen) \<and>
           topic_loop E sd original_text ex tw (topics sd) (ctx, cs, i) =
             topic_loop E sd original_text ex tw rest (ctx', cs', i + length seen) \<and>
           covered_topics ctx' = map title seen \<and>
           pending_topics ctx' = map title rest \<and>
           mset (covered_topics ctx' @ pending_topics ctx') = mset (map title (topics sd)) \<and>
           distinct (covered_topics ctx' @ pending_topics ctx') \<and>
           ctx_key_terms ctx \<subseteq> ctx_key_terms ctx' \<and>
           ctx_key_terms ctx' = ctx_key_terms ctx \<union> (\<Union>t \<in> set seen. set (key_concepts t))"
proof -
  have "pending_topics ctx = map title seen @ map title rest"
    using assms(2,4) by simp
  from topic_loop_runs [OF this assms(5,6), of sd original_text ex cs] obtain ctx' cs' where
    run: "topic_loop E sd original_text ex tw seen (ctx, cs, i) = Inr (ctx', cs', i + length seen)"
    and c: "covered_topics ctx' = covered_topics ctx @ map title seen"
    and p: "pending_topics ctx' = map title rest"
    and k: "ctx_key_terms ctx' = ctx_key_terms ctx \<union> (\<Union>t \<in> set seen. set (key_concepts t))"
    by blast
  have whole: "topic_loop E sd original_text ex tw (topics sd) (ctx, cs, i) =
      topic_loop E sd original_text ex tw rest (ctx', cs', i + length seen)"
    by (simp add: assms(4) topic_loop_append run)
  have cat: "covered_topics ctx' @ pending_topics ctx' = map title (topics sd)"
    using c p assms(3,4) by simp
  have "distinct (covered_topics ctx' @ pending_topics ctx')"
    using cat assms(1) by simp
  moreover have "mset (covered_topics ctx' @ pending_topics ctx') = mset (map title (topics sd))"
    using cat by simp
  moreover have "covered_topics ctx' = map title seen"
    using c assms(3) by simp
  moreover have "ctx_key_terms ctx \<subseteq> ctx_key_terms ctx'"
    using k by blast
  ultimately show ?thesis
    using run whole p k by blast
qed

theorem topic_loop_invariant_witness:
  "\<exists>ctx' cs'.
     topic_loop echo_env three_topics ''x'' True [''T1'' \<mapsto> 70, ''T2'' \<mapsto> 70, ''T3'' \<mapsto> 70]
       [topic_of ''T1'' ''ab'' 10, topic_of ''T2'' ''zz'' 10]
       (seeded_context three_topics ''i'', [], 1) = Inr (ctx', cs', 3) \<and>
     covered_topics ctx' = [''T1'', ''T2''] \<and>
     pending_topics ctx' = [''T3''] \<and>
     ctx_key_terms ctx' = {''ab'', ''zz''}"
proof -
  let ?seen = "[topic_of ''T1'' ''ab'' 10, topic_of ''T2'' ''zz'' 10]"
  let ?rest = "[topic_of ''T3'' ''b'' 10]"
  let ?tw = "[''T1'' \<mapsto> 70, ''T2'' \<mapsto> 70, ''T3'' \<mapsto> (70::int)]"
  let ?ctx = "seeded_context three_topics ''i''"
  have h1: "distinct (map title (topics three_topics))"
    by (simp add: three_topics_def topic_of_def)
  have h2: "pending_topics ?ctx = map title (topics three_topics)"
    by (simp add: seeded_context_def)
  have h3: "covered_topics ?ctx = []"
    by (simp add: seeded_context_def)
  have h4: "topics three_topics = ?seen @ ?rest"
    by (simp add: three_topics_def)
  have h5: "\<forall>t \<in> set ?seen. ?tw (title t) \<noteq> None"
    by (simp add: topic_of_def)
  have h6: "\<forall>n < length ?seen. \<forall>r. \<exists>s. provider echo_env (1 + n) r = Inr s"
    by (simp add: echo_env_def)
  from topic_loop_invariant [where original_text = "''x''" and ex = True and cs = "[]",
      OF h1 h2 h3 h4 h5 h6]
  show ?thesis
    by (auto simp: topic_of_def seeded_context_def numeral_3_eq_3)
qed


section \<open>Topics of zero duration\<close>

text \<open>
  Claim C6.  As stated the claim fails for a structure without topics: all of its (no)
  topics have duration zero and the total is zero, yet no division takes place and the
  main content is the empty text.
\<close>

theorem no_topics_no_fault:
  "topics no_topics = [] \<and>
   generate_main_content echo_env no_topics ''x'' 210 True (seeded_context no_topics ''i'') 1 =
     Inr ('''', seeded_context no_topics ''i'', 1)"
  by (simp add: generate_main_content_def no_topics_def)

text \<open>
  Claim C6, amended.  For every structure with at least one topic whose topics all have
  \<open>duration_minutes = 0\<close>, the proportional allocation divides by the zero total and
  \<open>_generate_main_content\<close> raises \<open>ZeroDivisionError\<close>, whatever the provider, the
  quota and the context: there is no guard.
\<close>

theorem zero_durations_fault:
  assumes "topics sd \<noteq> []"
    and "\<forall>t \<in> set (topics sd). duration_minutes t = 0"
  shows "generate_main_content E sd original_text target_words include_examples ctx i =
           Inl ZeroDivisionError"
proof -
  have "sum_list (map duration_minutes (topics sd)) = 0"
    using assms(2) by (rule sum_list_all_zero)
  moreover obtain t ts where "topics sd = t # ts"
    using assms(1) by (cases "topics sd") auto
  ultimately show ?thesis
    by (simp add: generate_main_content_def)
qed

theorem zero_durations_fault_witness:
  "generate_main_content echo_env
     (three_topics\<lparr>topics := [topic_of ''T1'' ''ab'' 0, topic_of ''T2'' ''zz'' 0]\<rparr>)
     ''x'' 210 True (seeded_context three_topics ''i'') 1 = Inl ZeroDivisionError"
  by (rule zero_durations_fault) (simp_all add: topic_of_def)


section \<open>The planner never raises\<close>




section \<open>A short answer to the line-oriented tier\<close>

text \<open>
  Claim C7.  The code does not do what the claim says when the answer has fewer than five
  non-blank lines.  Here the provider call succeeds with four lines, a title and three
  objectives; the claim promises a structure with that title, those objectives and no
  topics, but the division by the number of topics raises, the handler catches it, and
  the hardcoded structure is returned.
\<close>

theorem short_response_discarded:
  "provider four_lines_env 1 (FallbackRequest ''x'') = Inr four_lines \<and>
   response_lines four_lines = [''T'', ''A'', ''B'', ''C''] \<and>
   generate_fallback_structure four_lines_env ''x'' 10 1 = Inr (minimal_structure 10)"
proof -
  have lines: "response_lines four_lines = [''T'', ''A'', ''B'', ''C'']"
    by (simp add: response_lines_def four_lines_def string_eval)
  have "int_times 10 c_0_7 = Inr 7"
    by (simp add: c_0_7_eq float_eval)
  then show ?thesis
    by (simp add: fallback_characterised lines four_lines_env_def echo_env_def)
qed

section \<open>A failure after the introduction\<close>

text \<open>
  Claim C1.  The code does not do what the claim says.  With a provider that answers the
  introduction and the topic calls and fails on the practical call, the variable
  \<open>full_content\<close> is not yet bound when the handler runs, so the handler re-raises:
  the introduction was generated, and the caller gets the provider's error, not the
  introduction and main content.
\<close>

theorem practical_failure_is_raised:
  "generate_section practical_fails_env ''introduction'' (minimal_structure 10) ''X'' 130 True
     None True False 2 = Inr ''Ab ab'' \<and>
   transform_to_lecture practical_fails_env ''X'' 10 True = Inl ProviderError"
proof -
  have intro: "generate_section practical_fails_env ''introduction'' (minimal_structure 10) ''X''
      130 True None True False 2 = Inr ''Ab ab''"
    by (simp add: generate_section_def practical_fails_env_def echo_env_def practical_fails_def)
  have practical: "\<And>ctx. generate_section practical_fails_env ''practical''
      (minimal_structure 10) ''X'' 195 True ctx False False 4 = Inl ProviderError"
    by (simp add: generate_section_def practical_fails_env_def echo_env_def practical_fails_def)
  have "generate_sections practical_fails_env (minimal_structure 10) ''X''
      \<lparr>intro_words = 130, main_words = 909, practical_words = 195, summary_words = 65\<rparr> True 2 =
      Inl ProviderError"
    unfolding generate_sections_def
    by (simp add: intro practical practical_fails_main [unfolded seeded_context_def] Let_def)
  moreover have "clean_text practical_fails_env ''X'' = ''X''"
    "words_per_minute practical_fails_env = 130"
    by (simp_all add: practical_fails_env_def echo_env_def)
  ultimately show ?thesis
    using intro by (simp add: transform_to_lecture_def budget_1300 practical_fails_plan)
qed

section \<open>The bounds of the word count\<close>

text \<open>
  Claim C3.  As stated the claim fails in its second part: the upper bound is computed
  with \<open>int()\<close>, which truncates, as the lower bound is.  For a duration of one minute
  at 130 words per minute the bound is 136, and the ceiling of 136.5 is 137.
\<close>

theorem max_words_is_not_ceiling:
  "word_bounds 130 1 = Inr (130, 123, 136) \<and>
   (136::int) \<noteq> \<lceil>1.05 * real_of_int (130 * 1)\<rceil>"
proof -
  have "word_bounds 130 1 = Inr (130, 123, 136)"
    by (simp add: word_bounds_def c_0_95_eq c_1_05_eq float_eval)
  moreover have "\<lceil>1.05 * real_of_int (130 * 1)\<rceil> = (137::int)"
    by (simp add: ceiling_eq_iff)
  ultimately show ?thesis
    by simp
qed

text \<open>
  Claim C3, amended.  For every positive target duration \<open>D\<close> and words-per-minute
  \<open>W\<close> with \<open>W * D\<close> below \<open>2 ^ 48\<close>, the bounds are computed without error and are
  exactly \<open>min_acceptable = floor(0.95 * W * D)\<close> and
  \<open>max_acceptable = floor(1.05 * W * D)\<close>, the products taken in exact arithmetic: in
  this range the rounding of the double-precision product never crosses an integer.
\<close>

theorem word_bounds_floor:
  assumes "0 < W" "0 < D" "W * D < 2 ^ 48"
  shows "word_bounds W D =
           Inr (W * D, \<lfloor>0.95 * real_of_int (W * D)\<rfloor>, \<lfloor>1.05 * real_of_int (W * D)\<rfloor>)"
proof -
  have t: "0 < W * D"
    using assms(1,2) by simp
  have "\<lfloor>0.95 * real_of_int (W * D)\<rfloor> = (19 * (W * D)) div 20"
    using floor_decimal [of 20 19 "W * D"] by simp
  moreover have "\<lfloor>1.05 * real_of_int (W * D)\<rfloor> = (21 * (W * D)) div 20"
    using floor_decimal [of 20 21 "W * D"] by simp
  ultimately show ?thesis
    by (simp add: word_bounds_def Let_def int_times_0_95 [OF t assms(3)]
        int_times_1_05 [OF t assms(3)])
qed

theorem word_bounds_floor_witness:
  "(0::int) < 130 \<and> (0::int) < 10 \<and> (130::int) * 10 < 2 ^ 48 \<and>
   word_bounds 130 10 = Inr (1300, 1235, 1365)"
proof -
  have h: "(0::int) < 130" "(0::int) < 10" "(130::int) * 10 < 2 ^ 48"
    by simp_all
  from word_bounds_floor [OF h] show ?thesis
    by simp
qed

section \<open>The section quotas\<close>




section \<open>The word-count validator and its deviation test\<close>




end
